theory Spec2Isabelle
  imports Main "HOL-Library.Sublist" "HOL-Library.Char_ord" "HOL-Library.List_Lexorder"
begin

section \<open>The command tree of ishell\<close>

text \<open>
  The Go code builds a tree of \<open>*Cmd\<close> values that point at each other and are updated in
  place, so the embedding keeps an explicit store: an address is a natural number, a
  possibly nil pointer is an \<open>addr option\<close>, and every function that writes a field takes
  the store and returns the new one. Go strings are byte sequences and are compared
  bytewise, which is what \<open>string\<close> with the lexicographic order on \<open>char\<close> gives.
\<close>

subsection \<open>Data\<close>

datatype kind = StaticKind | ParamKind

type_synonym addr = nat

text \<open>\<open>Arg\<close> of the source; the fields are prefixed because \<open>Name\<close> and \<open>Help\<close> are also
  fields of \<open>Cmd\<close> and \<open>Pair\<close> is the pairing constant of HOL.\<close>

record Arg =
  Arg_Name :: string
  Arg_Pair :: bool
  Arg_Optional :: bool
  Arg_Help :: string

text \<open>
  \<open>Cmd\<close> of the source without its three callbacks (\<open>Func\<close>, \<open>Completer\<close>,
  \<open>CompleterWithPrefix\<close>), which no function below calls. \<open>staticChildren\<close> is a Go map:
  it is kept as an association list whose keys are looked up with \<open>map_of\<close> and whose order
  stands for the order in which a \<open>range\<close> loop happens to visit the map. Go leaves that order
  unspecified, so every statement below that depends on it is made for each order. A nil map
  and an empty map behave alike in all the code modelled here; both are \<open>[]\<close>.
\<close>

record Cmd =
  Name :: string
  Aliases :: "string list"
  Help :: string
  LongHelp :: string
  Args :: "Arg list"
  parent :: "addr option"
  staticChildren :: "(string \<times> addr) list"
  paramChild :: "addr option"
  kind :: kind

record heap =
  cells :: "addr \<Rightarrow> Cmd"
  nextAddr :: addr

datatype error = Panic string | IndexOutOfRange

definition paramLabel :: char where
  "paramLabel = CHR '':''"

definition spliter :: string where
  "spliter = ''/''"

text \<open>The zero value of \<open>Cmd\<close>, and \<open>&Cmd{Name: name}\<close>.\<close>

definition zeroCmd :: Cmd where
  "zeroCmd = \<lparr>Name = [], Aliases = [], Help = [], LongHelp = [], Args = [], parent = None,
     staticChildren = [], paramChild = None, kind = StaticKind\<rparr>"

definition upd :: "heap \<Rightarrow> addr \<Rightarrow> (Cmd \<Rightarrow> Cmd) \<Rightarrow> heap" where
  "upd h a f = h\<lparr>cells := (cells h)(a := f (cells h a))\<rparr>"

definition newCmd :: "heap \<Rightarrow> string \<Rightarrow> heap \<times> addr" where
  "newCmd h name =
     (h\<lparr>cells := (cells h)(nextAddr h := zeroCmd\<lparr>Name := name\<rparr>), nextAddr := Suc (nextAddr h)\<rparr>,
      nextAddr h)"

subsection \<open>The string functions of the Go library that the code calls\<close>

definition TrimPrefix :: "string \<Rightarrow> string \<Rightarrow> string" where
  "TrimPrefix s p = (if prefix p s then drop (length p) s else s)"

definition TrimSuffix :: "string \<Rightarrow> string \<Rightarrow> string" where
  "TrimSuffix s p = (if suffix p s then take (length s - length p) s else s)"

definition HasPrefix :: "string \<Rightarrow> string \<Rightarrow> bool" where
  "HasPrefix s p = prefix p s"

text \<open>\<open>strings.Split\<close> for a separator of one byte, which is how \<open>spliter\<close> is used: the
  pieces between the separators, the empty ones included, and \<open>[[]]\<close> for the empty string.\<close>

fun splitOn :: "char \<Rightarrow> string \<Rightarrow> string list" where
  "splitOn c [] = [[]]"
| "splitOn c (x # xs) =
     (if x = c then [] # splitOn c xs
      else (case splitOn c xs of [] \<Rightarrow> [[x]] | w # ws \<Rightarrow> (x # w) # ws))"

definition Split :: "string \<Rightarrow> string \<Rightarrow> string list" where
  "Split s sep = (case sep of [c] \<Rightarrow> splitOn c s | _ \<Rightarrow> [s])"

subsection \<open>addCmd, AddCmd, DeleteCmd\<close>

text \<open>
  \<open>addCmd(parent, child)\<close>. \<open>name[0]\<close> panics on an empty name. The field writes are kept
  one by one in the order of the source, so that the model is right also when \<open>parent\<close> and
  \<open>child\<close> are the same pointer. The result is the store and the returned pointer.
\<close>

definition addCmd :: "heap \<Rightarrow> addr \<Rightarrow> addr \<Rightarrow> error + (heap \<times> addr)" where
  "addCmd h par child =
     (case Name (cells h child) of
        [] \<Rightarrow> Inl IndexOutOfRange
      | c # rest \<Rightarrow>
          if c = paramLabel then
            (case paramChild (cells h par) of
               None \<Rightarrow>
                 let h1 = upd h child (\<lambda>n. n\<lparr>Name := rest\<rparr>);
                     h2 = upd h1 child (\<lambda>n. n\<lparr>kind := ParamKind\<rparr>);
                     h3 = upd h2 child (\<lambda>n. n\<lparr>parent := Some par\<rparr>);
                     h4 = upd h3 par (\<lambda>n. n\<lparr>paramChild := Some child\<rparr>)
                 in Inr (h4, child)
             | Some e \<Rightarrow> Inr (h, e))
          else
            (case map_of (staticChildren (cells h par)) (c # rest) of
               None \<Rightarrow>
                 let h1 = upd h child (\<lambda>n. n\<lparr>kind := StaticKind\<rparr>);
                     h2 = upd h1 child (\<lambda>n. n\<lparr>parent := Some par\<rparr>);
                     h3 = upd h2 par
                            (\<lambda>n. n\<lparr>staticChildren := staticChildren n @ [(c # rest, child)]\<rparr>)
                 in Inr (h3, child)
             | Some e \<Rightarrow> Inr (h, e)))"

text \<open>
  The loop of \<open>AddCmd\<close> over \<open>names[:len(names)-1]\<close>: \<open>path\<close> is \<open>cmd.Name\<close>, used by the
  panic message only. Each round allocates a placeholder, also when \<open>addCmd\<close> then returns a
  node that was there already.
\<close>

fun addPath :: "heap \<Rightarrow> addr \<Rightarrow> string list \<Rightarrow> string \<Rightarrow> error + (heap \<times> addr)" where
  "addPath h lst [] path = Inr (h, lst)"
| "addPath h lst (name # names) path =
     (case name of
        [] \<Rightarrow> Inl IndexOutOfRange
      | c # rest \<Rightarrow>
          if c = paramLabel \<and> length name < 2 then
            Inl (Panic (''wildcards must be named with a non-empty name '' @ [CHR 0x27]
                          @ path @ [CHR 0x27]))
          else
            (case newCmd h name of
               (h1, a) \<Rightarrow>
                 (case addCmd h1 lst a of
                    Inl e \<Rightarrow> Inl e
                  | Inr (h2, r) \<Rightarrow> addPath h2 r names path)))"

text \<open>\<open>c.AddCmd(cmd)\<close>. \<open>strings.Split\<close> never returns an empty list for a non-empty
  separator, so \<open>names[len(names)-1]\<close> is \<open>last names\<close>.\<close>

definition AddCmd :: "heap \<Rightarrow> addr \<Rightarrow> addr \<Rightarrow> error + heap" where
  "AddCmd h c cmd =
     (if Name (cells h cmd) = [] then Inl (Panic ''cmd name should not be empty'')
      else
        let h1 = upd h cmd (\<lambda>n. n\<lparr>Name := TrimSuffix (TrimPrefix (Name n) spliter) spliter\<rparr>);
            path = Name (cells h1 cmd);
            names = Split path spliter
        in (case addPath h1 c (butlast names) path of
              Inl e \<Rightarrow> Inl e
            | Inr (h2, lst) \<Rightarrow>
                let h3 = upd h2 cmd (\<lambda>n. n\<lparr>Name := last names\<rparr>)
                in (case addCmd h3 lst cmd of
                      Inl e \<Rightarrow> Inl e
                    | Inr (h4, r) \<Rightarrow> Inr h4)))"

text \<open>The segments that \<open>AddCmd\<close> computes from \<open>cmd.Name\<close>, for the statements about
  registered paths.\<close>

definition pathNames :: "string \<Rightarrow> string list" where
  "pathNames path = Split (TrimSuffix (TrimPrefix path spliter) spliter) spliter"


subsection \<open>Children, hasSubcommand, HelpText, helpText\<close>

text \<open>
  \<open>c.Children()\<close>: the static children in the order of the map, then the param child, sorted
  by \<open>Name\<close> as \<open>cmdSorter\<close> compares. \<open>sort.Sort\<close> is not stable; \<open>sort_key\<close> is, so the model
  fixes one of the orders that Go may give to children of equal name.
\<close>

definition Children :: "heap \<Rightarrow> addr \<Rightarrow> addr list" where
  "Children h c =
     (let cmds = map snd (staticChildren (cells h c));
          cmds1 = (case paramChild (cells h c) of None \<Rightarrow> cmds | Some p \<Rightarrow> cmds @ [p])
      in sort_key (\<lambda>a. Name (cells h a)) cmds1)"

definition hasSubcommand :: "heap \<Rightarrow> addr \<Rightarrow> bool" where
  "hasSubcommand h c =
     (if length (staticChildren (cells h c)) > 1 \<or> paramChild (cells h c) \<noteq> None then True
      else if map_of (staticChildren (cells h c)) ''help'' = None
           then length (staticChildren (cells h c)) > 0
      else False)"

text \<open>\<open>fmt.Fprintln\<close> on strings: the operands separated by one space, then a newline.\<close>

fun joinSp :: "string list \<Rightarrow> string" where
  "joinSp [] = []"
| "joinSp [s] = s"
| "joinSp (s # t # ts) = s @ '' '' @ joinSp (t # ts)"

definition Sprintln :: "string list \<Rightarrow> string" where
  "Sprintln s = joinSp s @ [CHR 0x0A]"

text \<open>The closure \<open>p\<close> of \<open>HelpText\<close> (a constant \<open>p\<close> would capture every variable of
  that name), with the buffer \<open>b\<close> passed and returned.\<close>

definition HelpText_p :: "string \<Rightarrow> string list \<Rightarrow> string" where
  "HelpText_p b s = (let b1 = b @ Sprintln [] in if length s > 0 then b1 @ Sprintln s else b1)"

text \<open>The line that \<open>fmt.Fprintf(w, "\t%s\t\t\t%s\n", child.Name, child.Help)\<close> hands to the
  tabwriter.\<close>

definition helpRow :: "Cmd \<Rightarrow> string" where
  "helpRow child =
     [CHR 0x09] @ Name child @ [CHR 0x09, CHR 0x09, CHR 0x09] @ Help child @ [CHR 0x0A]"

text \<open>
  \<open>c.HelpText()\<close>. \<open>text/tabwriter\<close> belongs to the Go library, not to this repository: the
  function \<open>tw\<close> stands for what \<open>tabwriter.NewWriter(&b, 0, 4, 2, ' ', 0)\<close> writes to the
  buffer at \<open>Flush\<close>, given everything that was written to it.
\<close>

definition HelpText :: "(string \<Rightarrow> string) \<Rightarrow> heap \<Rightarrow> addr \<Rightarrow> string" where
  "HelpText tw h c =
     (let b0 = [];
          b1 = (if LongHelp (cells h c) \<noteq> [] then HelpText_p b0 [LongHelp (cells h c)]
                else if Help (cells h c) \<noteq> [] then HelpText_p b0 [Help (cells h c)]
                else if Name (cells h c) \<noteq> [] then HelpText_p b0 [Name (cells h c), ''has no help'']
                else b0)
      in if hasSubcommand h c then
           let b2 = HelpText_p b1 [''Commands:''];
               b3 = b2 @ tw (concat (map (\<lambda>child. helpRow (cells h child)) (Children h c)))
           in HelpText_p b3 []
         else b1)"

definition helpText :: "Cmd \<Rightarrow> string" where
  "helpText c = (if LongHelp c \<noteq> [] then LongHelp c else Help c)"

text \<open>A writer that passes its input through, to run \<open>HelpText\<close> on concrete trees.\<close>

definition plainWriter :: "string \<Rightarrow> string" where
  "plainWriter s = s"

subsection \<open>findChildCmd, FindCmd\<close>

text \<open>
  \<open>findChildCmd\<close>: the exact key, else the first child in the order of the map one of whose
  aliases is the name, else the param child (which may be nil).
\<close>

definition findChildCmd :: "heap \<Rightarrow> addr \<Rightarrow> string \<Rightarrow> addr option" where
  "findChildCmd h c name =
     (case map_of (staticChildren (cells h c)) name of
        Some cmd \<Rightarrow> Some cmd
      | None \<Rightarrow>
          (case find (\<lambda>kv. name \<in> set (Aliases (cells h (snd kv)))) (staticChildren (cells h c)) of
             Some kv \<Rightarrow> Some (snd kv)
           | None \<Rightarrow> paramChild (cells h c)))"

text \<open>
  Modelled from the spec: \<open>Context\<close> and \<open>Param\<close> are declared in a file of the repository
  that is not among the sources; \<open>FindCmd\<close> uses the field \<open>Params\<close> of the one and the fields
  \<open>Key\<close> and \<open>Value\<close> of the other, which the spec describes as the ordered list of bound
  \<open>Param{Key, Value}\<close> pairs accumulated during a walk.
\<close>

record Param =
  Key :: string
  Value :: string

record Context =
  Params :: "Param list"

text \<open>The loop of \<open>FindCmd\<close>: \<open>cur\<close> is \<open>_c\<close>, \<open>cmd\<close> the last match (nil at first), and the
  result is \<open>cmd\<close>, the remaining arguments and the context.\<close>

fun findLoop ::
  "heap \<Rightarrow> addr \<Rightarrow> addr option \<Rightarrow> Context \<Rightarrow> string list \<Rightarrow> addr option \<times> string list \<times> Context"
where
  "findLoop h cur cmd ctx [] = (cmd, [], ctx)"
| "findLoop h cur cmd ctx (arg # args) =
     (case findChildCmd h cur arg of
        Some cmd1 \<Rightarrow>
          findLoop h cmd1 (Some cmd1)
            (if kind (cells h cmd1) = ParamKind
             then ctx\<lparr>Params := Params ctx @ [\<lparr>Key = Name (cells h cmd1), Value = arg\<rparr>]\<rparr>
             else ctx)
            args
      | None \<Rightarrow> (cmd, arg # args, ctx))"

text \<open>\<open>c.FindCmd(args, ctx)\<close>; a nil \<open>ctx\<close> is replaced by a new empty context.\<close>

definition FindCmd ::
  "heap \<Rightarrow> addr \<Rightarrow> string list \<Rightarrow> Context option \<Rightarrow> addr option \<times> string list \<times> Context"
where
  "FindCmd h c args ctx =
     findLoop h c None (case ctx of None \<Rightarrow> \<lparr>Params = []\<rparr> | Some x \<Rightarrow> x) args"

section \<open>Paths in the store\<close>

text \<open>
  The vocabulary for the statements about registered paths. A segment stands for an edge
  out of a node: \<open>addCmd\<close> sends every segment that starts with the wildcard marker to the
  one param child, whatever follows the marker, and any other segment to the static child
  under that key. \<open>segKey\<close> gives the edge of a segment, \<open>None\<close> for the param edge.
\<close>

fun segKey :: "string \<Rightarrow> string option" where
  "segKey [] = Some []"
| "segKey (c # cs) = (if c = paramLabel then None else Some (c # cs))"

definition edge :: "heap \<Rightarrow> addr \<Rightarrow> string option \<Rightarrow> addr option" where
  "edge h a k = (case k of None \<Rightarrow> paramChild (cells h a)
                       | Some s \<Rightarrow> map_of (staticChildren (cells h a)) s)"

text \<open>The node reached from \<open>a\<close> along a list of edges, if all of them are there.\<close>

fun walk :: "heap \<Rightarrow> addr \<Rightarrow> string option list \<Rightarrow> addr option" where
  "walk h a [] = Some a"
| "walk h a (k # ks) = (case edge h a k of None \<Rightarrow> None | Some b \<Rightarrow> walk h b ks)"

text \<open>\<open>onlyPath h a ks e\<close>: the edges \<open>ks\<close> lead from \<open>a\<close> to \<open>e\<close> through allocated nodes,
  each node on the way has no other edge, and \<open>e\<close> has none. This is the shape of a tree
  after the first registration.\<close>

fun onlyPath :: "heap \<Rightarrow> addr \<Rightarrow> string option list \<Rightarrow> addr \<Rightarrow> bool" where
  "onlyPath h a [] e = (a = e \<and> a < nextAddr h \<and> (\<forall>k. edge h a k = None))"
| "onlyPath h a (k # ks) e =
     (a < nextAddr h \<and>
      (case edge h a k of None \<Rightarrow> False
       | Some b \<Rightarrow> (\<forall>k'. k' \<noteq> k \<longrightarrow> edge h a k' = None) \<and> onlyPath h b ks e))"

text \<open>No alias of the node starts with the wildcard marker.\<close>

definition noWildAlias :: "Cmd \<Rightarrow> bool" where
  "noWildAlias c = (\<forall>al\<in>set (Aliases c). segKey al \<noteq> None)"

text \<open>
  What registration keeps true of the allocated nodes: their children are allocated, no
  key of a static child starts with the wildcard marker, and no static child has an alias
  that starts with it.
\<close>

definition childrenAllocated :: "heap \<Rightarrow> bool" where
  "childrenAllocated h =
     (\<forall>a<nextAddr h. (\<forall>kv\<in>set (staticChildren (cells h a)). snd kv < nextAddr h) \<and>
                      (\<forall>b. paramChild (cells h a) = Some b \<longrightarrow> b < nextAddr h))"

definition keysOk :: "heap \<Rightarrow> bool" where
  "keysOk h = (\<forall>a<nextAddr h. \<forall>kv\<in>set (staticChildren (cells h a)). segKey (fst kv) \<noteq> None)"

definition aliasesOk :: "heap \<Rightarrow> bool" where
  "aliasesOk h =
     (\<forall>a<nextAddr h. \<forall>kv\<in>set (staticChildren (cells h a)). noWildAlias (cells h (snd kv)))"

definition treeInv :: "heap \<Rightarrow> bool" where
  "treeInv h = (childrenAllocated h \<and> keysOk h \<and> aliasesOk h)"

section \<open>The completer\<close>

record Suggestion =
  Word :: string
  Param :: bool
  Optional :: bool
  Sug_Help :: string

text \<open>\<open>sort.Sort(suggestionSorter(s))\<close>: by \<open>Word\<close>; as for \<open>Children\<close>, the order of
  suggestions with the same word is one of those Go may give.\<close>

definition sortSuggestions :: "Suggestion list \<Rightarrow> Suggestion list" where
  "sortSuggestions s = sort_key Word s"

text \<open>The first loop of \<open>getWords\<close>: one suggestion for each static child whose key starts
  with the prefix.\<close>

definition staticWords :: "heap \<Rightarrow> addr \<Rightarrow> string \<Rightarrow> Suggestion list" where
  "staticWords h cmd pre =
     map (\<lambda>kv. \<lparr>Word = fst kv, Param = False, Optional = False,
                Sug_Help = helpText (cells h (snd kv))\<rparr>)
       (filter (\<lambda>kv. HasPrefix (fst kv) pre) (staticChildren (cells h cmd)))"

definition paramWords :: "heap \<Rightarrow> addr \<Rightarrow> Suggestion list" where
  "paramWords h cmd =
     (case paramChild (cells h cmd) of
        None \<Rightarrow> []
      | Some pc \<Rightarrow> [\<lparr>Word = Name (cells h pc), Param = True, Optional = False,
                     Sug_Help = helpText (cells h pc)\<rparr>])"

text \<open>
  \<open>getWords\<close> from the point where \<open>cmd\<close> and \<open>args\<close> are known. \<open>argMap\<close> is the set of the
  arguments; the deferred sort runs at both returns.
\<close>

definition wordsOf :: "heap \<Rightarrow> addr \<Rightarrow> string \<Rightarrow> string list \<Rightarrow> Suggestion list" where
  "wordsOf h cmd pre args =
     (let s = staticWords h cmd pre @ paramWords h cmd;
          pairArg = (if length args > 0
                     then find (\<lambda>arg. Arg_Name arg = last args \<and> Arg_Pair arg) (Args (cells h cmd))
                     else None)
      in case pairArg of
           Some arg \<Rightarrow>
             sortSuggestions (s @ [\<lparr>Word = Arg_Name arg, Param = True,
                                     Optional = Arg_Optional arg, Sug_Help = Arg_Help arg\<rparr>])
         | None \<Rightarrow>
             sortSuggestions (s @
               map (\<lambda>arg. \<lparr>Word = Arg_Name arg, Param = False,
                            Optional = Arg_Optional arg, Sug_Help = Arg_Help arg\<rparr>)
                 (filter (\<lambda>arg. Arg_Name arg \<notin> set args) (Args (cells h cmd)))))"

text \<open>
  \<open>ic.getWords(prefix, w)\<close>, with \<open>root\<close> for \<open>ic.cmd\<close>. The statement
  \<open>cmd, _ = ic.cmd, w\<close> assigns \<open>w\<close> to the blank identifier: \<open>args\<close> stays what \<open>FindCmd\<close>
  returned.
\<close>

definition getWords :: "heap \<Rightarrow> addr \<Rightarrow> string \<Rightarrow> string list \<Rightarrow> Suggestion list" where
  "getWords h root pre w =
     (case FindCmd h root w (Some \<lparr>Params = []\<rparr>) of
        (cmd, args, ctx) \<Rightarrow>
          (case cmd of
             None \<Rightarrow> wordsOf h root pre args
           | Some c \<Rightarrow> wordsOf h c pre args))"

text \<open>
  Lines 53 to 59 of \<open>Do\<close>: the prefix and the words handed to \<open>getWords\<close>. \<open>line[pos-1]\<close>
  panics when \<open>pos\<close> is beyond the line; \<open>&&\<close> evaluates it only after the two other tests.
\<close>

definition splitPrefix :: "string list \<Rightarrow> string \<Rightarrow> int \<Rightarrow> error + (string \<times> string list)" where
  "splitPrefix words line pos =
     (if length words > 0 \<and> pos > 0 then
        (if nat (pos - 1) < length line then
           (if line ! nat (pos - 1) \<noteq> CHR '' '' then Inr (last words, butlast words)
            else Inr ([], words))
         else Inl IndexOutOfRange)
      else Inr ([], words))"

text \<open>\<open>fmt.Sprintf("%-15s %s", tip, w.Help)\<close> and the brackets around the word.\<close>

definition padRight :: "nat \<Rightarrow> string \<Rightarrow> string" where
  "padRight n s = s @ replicate (n - length s) CHR '' ''"

definition tipOf :: "Suggestion \<Rightarrow> string" where
  "tipOf w =
     (let leftBracket = (if Optional w \<and> \<not> Param w then ''['' else []);
          righeBracket = (if Optional w \<and> \<not> Param w then '']'' else []);
          leftAngle = (if Param w then ''<'' else []);
          rightAngel = (if Param w then ''>'' else []);
          tip = leftBracket @ leftAngle @ Word w @ rightAngel @ righeBracket
      in padRight 15 tip @ '' '' @ Sug_Help w)"

text \<open>
  Lines 61 to 112 of \<open>Do\<close>, from the prefix and the words handed to \<open>getWords\<close>: the tips,
  the suggestions, the special case of the one empty suggestion, the length, and the
  printing. The result is \<open>newLine\<close>, \<open>length\<close> and \<open>offset\<close>, and the lines written with
  \<open>Println\<close> (the shell is used for nothing else).
\<close>

definition suggest ::
  "heap \<Rightarrow> addr \<Rightarrow> string \<Rightarrow> string list \<Rightarrow> (string list \<times> nat \<times> nat) \<times> string list"
where
  "suggest h root pre w =
     (let cWords = getWords h root pre w;
          hasParam = (\<exists>w \<in> set cWords. Param w);
          tips = map tipOf cWords;
          suggestions = map (\<lambda>w. TrimPrefix (Word w) pre)
                          (filter (\<lambda>w. \<not> Param w \<and> HasPrefix (Word w) pre) cWords);
          single = (length suggestions = 1 \<and> pre \<noteq> [] \<and> suggestions = [[]]);
          suggestions1 = (if single then ['' ''] else suggestions);
          hasParam1 = (if single then False else hasParam);
          len = length suggestions1 + (if hasParam1 then 1 else 0);
          out = (if len > 1 \<or> hasParam1
                 then (case tips of [] \<Rightarrow> [] | t # ts \<Rightarrow> [] # t # ts)
                 else [])
      in ((suggestions1, len, length pre), out))"

text \<open>
  \<open>iCompleter\<close>: the root command and the \<open>disabled\<close> callback, which is nil or returns a
  boolean.
\<close>

record iCompleter =
  cmd :: addr
  disabled :: "bool option"

text \<open>
  \<open>ic.Do(line, pos)\<close>. The line is a slice of runes in Go and a \<open>string\<close> here, one \<open>char\<close>
  for each rune, so the model covers lines of single-byte characters, where \<open>string(line)\<close>
  and \<open>[]rune(s)\<close> change nothing. \<open>shlex.Split\<close> and \<open>strings.Fields\<close> are library code:
  \<open>shlexSplit\<close> gives the words or \<open>None\<close> for an error, \<open>Fields\<close> the words.
\<close>

definition Do ::
  "(string \<Rightarrow> string list option) \<Rightarrow> (string \<Rightarrow> string list) \<Rightarrow> heap \<Rightarrow> iCompleter \<Rightarrow>
     string \<Rightarrow> int \<Rightarrow> error + ((string list \<times> nat \<times> nat) \<times> string list)"
where
  "Do shlexSplit Fields h ic line pos =
     (if disabled ic = Some True then Inr (([], 0, length line), [])
      else
        let words = (case shlexSplit line of Some w \<Rightarrow> w | None \<Rightarrow> Fields line)
        in case splitPrefix words line pos of
             Inl e \<Rightarrow> Inl e
           | Inr (pre, w) \<Rightarrow> Inr (suggest h (cmd ic) pre w))"

section \<open>The spec's wording, for comparison with the code\<close>

text \<open>
  The spec lets the last token be the prefix when the character before the cursor is
  ``non-whitespace''. The white space of ASCII, which is also what \<open>shlex\<close> and
  \<open>strings.Fields\<close> split at:
\<close>

definition isWhitespace :: "char \<Rightarrow> bool" where
  "isWhitespace c = (c \<in> set [CHR 0x09, CHR 0x0A, CHR 0x0B, CHR 0x0C, CHR 0x0D, CHR '' ''])"

definition spec_splitPrefix :: "string list \<Rightarrow> string \<Rightarrow> int \<Rightarrow> string \<times> string list" where
  "spec_splitPrefix words line pos =
     (if length words > 0 \<and> pos > 0 \<and> nat (pos - 1) < length line
           \<and> \<not> isWhitespace (line ! nat (pos - 1))
      then (last words, butlast words)
      else ([], words))"

text \<open>
  The spec's \<open>resolvedHelp\<close>, and its \<open>FullHelp\<close>: as \<open>HelpText\<close>, but each line of the list
  pairs the name of the child with the resolved help of the child.
\<close>

definition resolvedHelp :: "Cmd \<Rightarrow> string" where
  "resolvedHelp c =
     (if LongHelp c \<noteq> [] then LongHelp c
      else if Help c \<noteq> [] then Help c
      else if Name c \<noteq> [] then Name c @ '' has no help''
      else [])"

definition spec_helpRow :: "Cmd \<Rightarrow> string" where
  "spec_helpRow child =
     [CHR 0x09] @ Name child @ [CHR 0x09, CHR 0x09, CHR 0x09] @ resolvedHelp child @ [CHR 0x0A]"

definition spec_FullHelp :: "(string \<Rightarrow> string) \<Rightarrow> heap \<Rightarrow> addr \<Rightarrow> string" where
  "spec_FullHelp tw h c =
     (let b1 = (if resolvedHelp (cells h c) = [] then []
                else Sprintln [] @ Sprintln [resolvedHelp (cells h c)])
      in if hasSubcommand h c then
           b1 @ Sprintln [] @ Sprintln [''Commands:'']
              @ tw (concat (map (\<lambda>child. spec_helpRow (cells h child)) (Children h c)))
              @ Sprintln []
         else b1)"

section \<open>Concrete trees and tokenizers\<close>

text \<open>Stores for running the functions above: the nodes of a list, at the addresses
  \<open>0\<close>, \<open>1\<close>, ... in the order of the list.\<close>

definition named :: "string \<Rightarrow> Cmd" where
  "named s = zeroCmd\<lparr>Name := s\<rparr>"

definition heapOf :: "Cmd list \<Rightarrow> heap" where
  "heapOf cs = \<lparr>cells = (\<lambda>a. if a < length cs then cs ! a else zeroCmd), nextAddr = length cs\<rparr>"

text \<open>A root with the one static child \<open>start\<close>.\<close>

definition ex_flat :: heap where
  "ex_flat = heapOf [zeroCmd\<lparr>staticChildren := [(''start'', 1)]\<rparr>, named ''start'']"

text \<open>A root and a node to be registered under the bare wildcard marker.\<close>

definition ex_bare :: heap where
  "ex_bare = heapOf [zeroCmd, named '':'']"

text \<open>A root and two nodes to be registered as the wildcards \<open>:a\<close> and \<open>:b\<close>.\<close>

definition ex_wild2 :: heap where
  "ex_wild2 = heapOf [zeroCmd, named '':a'', named '':b'']"



text \<open>
  Tokenizers for running \<open>Do\<close>: a \<open>shlex.Split\<close> that reports an error for every line, so
  that \<open>Do\<close> falls back, and the words of a line between ASCII white space, which is what
  \<open>strings.Fields\<close> returns for a line of ASCII characters.
\<close>

definition failingShlex :: "string \<Rightarrow> string list option" where
  "failingShlex line = None"

fun fieldsFrom :: "string \<Rightarrow> string \<Rightarrow> string list" where
  "fieldsFrom cur [] = (if cur = [] then [] else [cur])"
| "fieldsFrom cur (c # cs) =
     (if isWhitespace c then (if cur = [] then fieldsFrom [] cs else cur # fieldsFrom [] cs)
      else fieldsFrom (cur @ [c]) cs)"

definition asciiFields :: "string \<Rightarrow> string list" where
  "asciiFields line = fieldsFrom [] line"

text \<open>A completer on the root of \<open>ex_flat\<close>.\<close>

definition ic_flat :: iCompleter where
  "ic_flat = \<lparr>cmd = 0, disabled = None\<rparr>"

text \<open>
  A root with the static children \<open>stop\<close> and \<open>start\<close>, visited in this order, where
  \<open>start\<close> has the alias \<open>st\<close>; in the second store \<open>stop\<close> has the alias \<open>st\<close> as well.
\<close>

definition ex_alias :: heap where
  "ex_alias = heapOf [zeroCmd\<lparr>staticChildren := [(''stop'', 2), (''start'', 1)]\<rparr>,
                      (named ''start'')\<lparr>Aliases := [''st'']\<rparr>, named ''stop'']"

definition ex_alias_twice :: heap where
  "ex_alias_twice = heapOf [zeroCmd\<lparr>staticChildren := [(''stop'', 2), (''start'', 1)]\<rparr>,
                      (named ''start'')\<lparr>Aliases := [''st'']\<rparr>,
                      (named ''stop'')\<lparr>Aliases := [''st'']\<rparr>]"

text \<open>A root without help of its own and with the static children \<open>run\<close> and \<open>deploy\<close>;
  \<open>deploy\<close> has both a one-line help and a long help.\<close>

definition ex_help :: heap where
  "ex_help = heapOf [zeroCmd\<lparr>staticChildren := [(''run'', 2), (''deploy'', 1)]\<rparr>,
                     (named ''deploy'')\<lparr>Help := ''short'', LongHelp := ''long text''\<rparr>,
                     (named ''run'')\<lparr>Help := ''runs''\<rparr>]"

text \<open>A root with the command \<open>build\<close>, which takes the flag \<open>--verbose\<close> and the pair
  argument \<open>--out\<close> and has the subcommand \<open>all\<close>.\<close>

definition ex_args :: heap where
  "ex_args = heapOf [zeroCmd\<lparr>staticChildren := [(''build'', 1)]\<rparr>,
     (named ''build'')\<lparr>Args := [\<lparr>Arg_Name = ''--verbose'', Arg_Pair = False,
                                   Arg_Optional = True, Arg_Help = ''more output''\<rparr>,
                                 \<lparr>Arg_Name = ''--out'', Arg_Pair = True,
                                   Arg_Optional = False, Arg_Help = ''output file''\<rparr>],
                        staticChildren := [(''all'', 2)]\<rparr>,
     named ''all'']"

text \<open>A root with the command \<open>svc\<close>, whose static children are \<open>stop\<close>, \<open>status\<close> and
  \<open>start\<close>, visited in this order.\<close>

definition ex_service :: heap where
  "ex_service = heapOf [zeroCmd\<lparr>staticChildren := [(''svc'', 1)]\<rparr>,
     (named ''svc'')\<lparr>staticChildren := [(''stop'', 3), (''status'', 4), (''start'', 2)]\<rparr>,
     (named ''start'')\<lparr>Help := ''start the service''\<rparr>,
     (named ''stop'')\<lparr>Help := ''stop the service''\<rparr>,
     (named ''status'')\<lparr>Help := ''show the state''\<rparr>]"

text \<open>
  Two registrations on one root, one after the other, and the resolution of a list of
  tokens in the tree they leave, for running both on concrete stores.
\<close>

definition registerBoth :: "heap \<Rightarrow> addr \<Rightarrow> addr \<Rightarrow> addr \<Rightarrow> error + heap" where
  "registerBoth h root c1 c2 =
     (case AddCmd h root c1 of Inl e \<Rightarrow> Inl e | Inr h1 \<Rightarrow> AddCmd h1 root c2)"

definition resolveOn ::
  "error + heap \<Rightarrow> addr \<Rightarrow> string list \<Rightarrow> (addr option \<times> string list) option" where
  "resolveOn r root toks =
     (case r of Inl e \<Rightarrow> None
      | Inr h \<Rightarrow> (case FindCmd h root toks None of (c, rest, ctx) \<Rightarrow> Some (c, rest)))"

definition succeeded :: "error + heap \<Rightarrow> bool" where
  "succeeded r = (case r of Inl e \<Rightarrow> False | Inr h \<Rightarrow> True)"

text \<open>A root and two nodes to be registered: at \<open>a/b\<close> and then at \<open>a\<close>; at \<open>svc/start\<close>
  and then at \<open>svc/:id/logs\<close>.\<close>

definition ex_prefix :: heap where
  "ex_prefix = heapOf [zeroCmd, named ''a/b'', named ''a'']"

definition ex_two :: heap where
  "ex_two = heapOf [zeroCmd, (named ''svc/start'')\<lparr>Aliases := [''up'']\<rparr>, named ''svc/:id/logs'']"

section \<open>The store\<close>


lemma cells_upd: "cells (upd h a f) b = (if b = a then f (cells h a) else cells h b)"
  by (simp add: upd_def)

lemma nextAddr_upd [simp]: "nextAddr (upd h a f) = nextAddr h"
  by (simp add: upd_def)

section \<open>Registration\<close>


lemma addCmd_wild_new:
  assumes "Name (cells h ch) = paramLabel # rest" and "paramChild (cells h par) = None"
  shows "addCmd h par ch =
           Inr (upd (upd (upd (upd h ch (\<lambda>n. n\<lparr>Name := rest\<rparr>)) ch (\<lambda>n. n\<lparr>kind := ParamKind\<rparr>))
                       ch (\<lambda>n. n\<lparr>parent := Some par\<rparr>)) par (\<lambda>n. n\<lparr>paramChild := Some ch\<rparr>), ch)"
  using assms by (simp add: addCmd_def Let_def)







lemma addPath_append:
  "addPath h lst (xs @ ys) path =
     (case addPath h lst xs path of Inl e \<Rightarrow> Inl e | Inr (h', r) \<Rightarrow> addPath h' r ys path)"
  by (induction xs arbitrary: h lst) (auto split: list.splits sum.splits prod.splits)


lemma AddCmd_names:
  assumes "Name (cells h cm) \<noteq> []" and "pathNames (Name (cells h cm)) = names"
  shows "AddCmd h c cm =
    (case addPath (upd h cm (\<lambda>n. n\<lparr>Name := TrimSuffix (TrimPrefix (Name n) spliter) spliter\<rparr>)) c
            (butlast names) (TrimSuffix (TrimPrefix (Name (cells h cm)) spliter) spliter) of
       Inl e \<Rightarrow> Inl e
     | Inr (h2, lst) \<Rightarrow>
         (case addCmd (upd h2 cm (\<lambda>n. n\<lparr>Name := last names\<rparr>)) lst cm of
            Inl e \<Rightarrow> Inl e
          | Inr (h4, r) \<Rightarrow> Inr h4))"
proof -
  have n: "Name (cells (upd h cm (\<lambda>n. n\<lparr>Name := TrimSuffix (TrimPrefix (Name n) spliter) spliter\<rparr>)) cm)
             = TrimSuffix (TrimPrefix (Name (cells h cm)) spliter) spliter"
    by (simp add: cells_upd)
  have s: "Split (TrimSuffix (TrimPrefix (Name (cells h cm)) spliter) spliter) spliter = names"
    using assms(2) by (simp add: pathNames_def)
  show ?thesis
    unfolding AddCmd_def Let_def n s using assms(1) by simp
qed

lemma addPath_bare:
  "\<exists>e. addPath h lst (pre @ [paramLabel] # rest) path = Inl e"
proof (cases "addPath h lst pre path")
  case (Inl e)
  then show ?thesis by (simp add: addPath_append)
next
  case (Inr x)
  then show ?thesis by (cases x) (simp add: addPath_append)
qed

text \<open>A bare wildcard marker before the last segment: the registration aborts, with the
  panic of the loop or with an earlier one.\<close>

lemma AddCmd_bare_wildcard_intermediate:
  assumes "pathNames (Name (cells h cm)) = pre @ [paramLabel] # post" and "post \<noteq> []"
  shows "\<exists>e. AddCmd h c cm = Inl e"
proof (cases "Name (cells h cm) = []")
  case True
  then show ?thesis by (simp add: AddCmd_def)
next
  case False
  have b: "butlast (pre @ [paramLabel] # post) = pre @ [paramLabel] # butlast post"
    using assms(2) by (simp add: butlast_append)
  obtain e where "addPath (upd h cm (\<lambda>n. n\<lparr>Name := TrimSuffix (TrimPrefix (Name n) spliter) spliter\<rparr>)) c
            (butlast (pre @ [paramLabel] # post))
            (TrimSuffix (TrimPrefix (Name (cells h cm)) spliter) spliter) = Inl e"
    unfolding b using addPath_bare by blast
  then show ?thesis using AddCmd_names [OF False assms(1), of c] by simp
qed

text \<open>
  C2, at the input where the code departs from it. The path \<open>:\<close> is a bare wildcard marker
  in the last position. \<open>AddCmd\<close> tests for a wildcard without a name in its loop over the
  segments before the last one only, and \<open>addCmd\<close> has no such test: the registration
  succeeds, and the root gets a param child whose name is empty. For a bare marker before
  the last segment the registration does abort (\<open>AddCmd_bare_wildcard_intermediate\<close>).
\<close>

theorem AddCmd_bare_wildcard_last:
  "\<exists>h'. AddCmd ex_bare 0 1 = Inr h' \<and> paramChild (cells h' 0) = Some 1 \<and>
        Name (cells h' 1) = [] \<and> kind (cells h' 1) = ParamKind"
  by (simp add: AddCmd_def addCmd_def upd_def ex_bare_def heapOf_def named_def zeroCmd_def
      Split_def TrimSuffix_def TrimPrefix_def spliter_def paramLabel_def Let_def suffix_to_prefix)







section \<open>Resolution\<close>

lemma findChildCmd_exact:
  "map_of (staticChildren (cells h c)) name = Some x \<Longrightarrow> findChildCmd h c name = Some x"
  by (simp add: findChildCmd_def)

lemma findChildCmd_alias:
  assumes "map_of (staticChildren (cells h c)) name = None"
    and "\<exists>kv\<in>set (staticChildren (cells h c)). name \<in> set (Aliases (cells h (snd kv)))"
  shows "\<exists>kv\<in>set (staticChildren (cells h c)).
           name \<in> set (Aliases (cells h (snd kv))) \<and> findChildCmd h c name = Some (snd kv)"
proof -
  obtain kv where f: "find (\<lambda>kv. name \<in> set (Aliases (cells h (snd kv)))) (staticChildren (cells h c)) = Some kv"
    using assms(2) by (cases "find (\<lambda>kv. name \<in> set (Aliases (cells h (snd kv)))) (staticChildren (cells h c))")
      (auto simp: find_None_iff)
  then have "kv \<in> set (staticChildren (cells h c))" "name \<in> set (Aliases (cells h (snd kv)))"
    by (auto simp: find_Some_iff)
  moreover have "findChildCmd h c name = Some (snd kv)"
    using assms(1) f by (simp add: findChildCmd_def)
  ultimately show ?thesis by blast
qed

lemma findChildCmd_param:
  assumes "map_of (staticChildren (cells h c)) name = None"
    and "\<forall>kv\<in>set (staticChildren (cells h c)). name \<notin> set (Aliases (cells h (snd kv)))"
  shows "findChildCmd h c name = paramChild (cells h c)"
proof -
  have "find (\<lambda>kv. name \<in> set (Aliases (cells h (snd kv)))) (staticChildren (cells h c)) = None"
    using assms(2) by (force simp add: find_None_iff)
  then show ?thesis using assms(1) by (simp add: findChildCmd_def)
qed

lemma FindCmd_one:
  "findChildCmd h c tok = Some n \<Longrightarrow> fst (FindCmd h c [tok] ctx) = Some n \<and> fst (snd (FindCmd h c [tok] ctx)) = []"
  by (simp add: FindCmd_def)

text \<open>
  C8, amended. A node has a static child under the key \<open>start\<close> that carries the alias
  \<open>st\<close>, no static child under the key \<open>st\<close>, and no other static child that carries the
  alias \<open>st\<close>. Then resolving the token \<open>st\<close> and resolving the token \<open>start\<close> both return
  that child and no leftover tokens. For every token, \<open>findChildCmd\<close> returns the static
  child under that key if there is one; else a static child one of whose aliases is the
  token if there is one; else the param child.
\<close>

theorem alias_resolves_like_name:
  assumes "map_of (staticChildren (cells h c)) ''start'' = Some n"
    and "''st'' \<in> set (Aliases (cells h n))"
    and "map_of (staticChildren (cells h c)) ''st'' = None"
    and "\<forall>kv\<in>set (staticChildren (cells h c)). ''st'' \<in> set (Aliases (cells h (snd kv))) \<longrightarrow> snd kv = n"
  shows "fst (FindCmd h c [''st''] ctx) = Some n \<and> fst (snd (FindCmd h c [''st''] ctx)) = [] \<and>
         fst (FindCmd h c [''start''] ctx) = Some n \<and> fst (snd (FindCmd h c [''start''] ctx)) = [] \<and>
         (\<forall>x. map_of (staticChildren (cells h c)) name = Some x \<longrightarrow> findChildCmd h c name = Some x) \<and>
         (map_of (staticChildren (cells h c)) name = None \<longrightarrow>
            (if \<exists>kv\<in>set (staticChildren (cells h c)). name \<in> set (Aliases (cells h (snd kv)))
             then \<exists>kv\<in>set (staticChildren (cells h c)).
                    name \<in> set (Aliases (cells h (snd kv))) \<and> findChildCmd h c name = Some (snd kv)
             else findChildCmd h c name = paramChild (cells h c)))"
proof -
  have "(''start'', n) \<in> set (staticChildren (cells h c))"
    using assms(1) by (rule map_of_SomeD)
  then have "\<exists>kv\<in>set (staticChildren (cells h c)). ''st'' \<in> set (Aliases (cells h (snd kv)))"
    using assms(2) by force
  from findChildCmd_alias [OF assms(3) this] assms(4)
  have st: "findChildCmd h c ''st'' = Some n" by auto
  have start: "findChildCmd h c ''start'' = Some n"
    using assms(1) by (rule findChildCmd_exact)
  show ?thesis
    using FindCmd_one [OF st, of ctx] FindCmd_one [OF start, of ctx]
      findChildCmd_exact [of h c name] findChildCmd_alias [of h c name] findChildCmd_param [of h c name]
    by auto
qed

theorem alias_resolves_like_name_witness:
  "map_of (staticChildren (cells ex_alias 0)) ''start'' = Some 1 \<and>
   ''st'' \<in> set (Aliases (cells ex_alias 1)) \<and>
   map_of (staticChildren (cells ex_alias 0)) ''st'' = None \<and>
   fst (FindCmd ex_alias 0 [''st''] None) = Some 1 \<and> fst (snd (FindCmd ex_alias 0 [''st''] None)) = [] \<and>
   fst (FindCmd ex_alias 0 [''start''] None) = Some 1 \<and> fst (snd (FindCmd ex_alias 0 [''start''] None)) = []"
proof -
  have a: "map_of (staticChildren (cells ex_alias 0)) ''start'' = Some 1"
    and b: "''st'' \<in> set (Aliases (cells ex_alias 1))"
    and c: "map_of (staticChildren (cells ex_alias 0)) ''st'' = None"
    and d: "\<forall>kv\<in>set (staticChildren (cells ex_alias 0)). ''st'' \<in> set (Aliases (cells ex_alias (snd kv))) \<longrightarrow> snd kv = 1"
    by (simp_all add: ex_alias_def heapOf_def named_def zeroCmd_def)
  show ?thesis
    using a b c alias_resolves_like_name [OF a b c d, of None] by simp
qed

text \<open>
  C8 as stated fails when a sibling carries the alias too: \<open>findChildCmd\<close> returns the
  first child with the alias in the order in which the map is visited, and Go leaves that
  order open. Here \<open>stop\<close> is visited first and the token \<open>st\<close> resolves to it.
\<close>

theorem alias_shared_by_sibling:
  "map_of (staticChildren (cells ex_alias_twice 0)) ''start'' = Some 1 \<and>
   ''st'' \<in> set (Aliases (cells ex_alias_twice 1)) \<and>
   map_of (staticChildren (cells ex_alias_twice 0)) ''st'' = None \<and>
   fst (FindCmd ex_alias_twice 0 [''start''] None) = Some 1 \<and>
   fst (FindCmd ex_alias_twice 0 [''st''] None) = Some 2"
  by (simp add: FindCmd_def findChildCmd_def ex_alias_twice_def heapOf_def named_def zeroCmd_def)


lemma findLoop_Some: "\<exists>r. fst (findLoop h cur (Some x) ctx args) = Some r"
  by (induction args arbitrary: cur x ctx) (auto split: option.splits)

lemma findLoop_None_rest:
  "fst (findLoop h cur None ctx args) = None \<Longrightarrow> findLoop h cur None ctx args = (None, args, ctx)"
proof (cases args)
  case Nil
  then show ?thesis by simp
next
  case (Cons a as)
  assume n: "fst (findLoop h cur None ctx args) = None"
  show ?thesis
  proof (cases "findChildCmd h cur a")
    case None
    with Cons show ?thesis by simp
  next
    case (Some c1)
    obtain r where "fst (findLoop h c1 (Some c1)
            (if kind (cells h c1) = ParamKind
             then ctx\<lparr>Params := Params ctx @ [\<lparr>Key = Name (cells h c1), Value = a\<rparr>]\<rparr>
             else ctx) as) = Some r"
      using findLoop_Some by blast
    with n Cons Some show ?thesis by simp
  qed
qed

text \<open>
  C9. When \<open>FindCmd\<close> matches no token and returns nil, the arguments it returns are the
  whole list of words it was given, and \<open>getWords\<close> builds its candidates from the root of
  the completer with all of these words as arguments.
\<close>

theorem getWords_falls_back_to_root:
  "fst (FindCmd h root w (Some \<lparr>Params = []\<rparr>)) = None \<Longrightarrow>
     FindCmd h root w (Some \<lparr>Params = []\<rparr>) = (None, w, \<lparr>Params = []\<rparr>) \<and>
     getWords h root pre w = wordsOf h root pre w"
  using findLoop_None_rest [of h root "\<lparr>Params = []\<rparr>" w]
  by (simp add: FindCmd_def getWords_def)

theorem getWords_falls_back_to_root_witness:
  "fst (FindCmd ex_flat 0 [''run'', ''start''] (Some \<lparr>Params = []\<rparr>)) = None \<and>
   FindCmd ex_flat 0 [''run'', ''start''] (Some \<lparr>Params = []\<rparr>)
     = (None, [''run'', ''start''], \<lparr>Params = []\<rparr>) \<and>
   getWords ex_flat 0 ''s'' [''run'', ''start''] = wordsOf ex_flat 0 ''s'' [''run'', ''start'']"
proof -
  have h: "fst (FindCmd ex_flat 0 [''run'', ''start''] (Some \<lparr>Params = []\<rparr>)) = None"
    by (simp add: FindCmd_def findChildCmd_def ex_flat_def heapOf_def named_def zeroCmd_def)
  show ?thesis using h getWords_falls_back_to_root [OF h, of "''s''"] by simp
qed

lemma findChildCmd_None_param: "findChildCmd h c name = None \<Longrightarrow> paramChild (cells h c) = None"
  by (auto simp: findChildCmd_def split: option.splits)

lemma findLoop_rest:
  "findLoop h cur cm ctx args = (r, rest, ctx') \<Longrightarrow> rest \<noteq> [] \<Longrightarrow> cm = None \<or> cm = Some cur \<Longrightarrow>
     findChildCmd h (case r of None \<Rightarrow> cur | Some x \<Rightarrow> x) (hd rest) = None"
proof (induction args arbitrary: cur cm ctx)
  case Nil
  then show ?case by simp
next
  case (Cons arg args)
  show ?case
  proof (cases "findChildCmd h cur arg")
    case None
    with Cons.prems show ?thesis by auto
  next
    case (Some c1)
    let ?ctx = "if kind (cells h c1) = ParamKind
             then ctx\<lparr>Params := Params ctx @ [\<lparr>Key = Name (cells h c1), Value = arg\<rparr>]\<rparr>
             else ctx"
    have l: "findLoop h c1 (Some c1) ?ctx args = (r, rest, ctx')"
      using Cons.prems(1) Some by simp
    obtain x where "r = Some x"
      using findLoop_Some [of h c1 c1 ?ctx args] l by auto
    then show ?thesis
      using Cons.IH [OF l Cons.prems(2)] by simp
  qed
qed

lemma filter_Param_staticWords: "filter Param (staticWords h c pre) = []"
  by (simp add: staticWords_def filter_map o_def)

section \<open>Registered paths resolve\<close>

lemma segKey_Some: "segKey s = Some t \<Longrightarrow> t = s"
  by (cases s) (auto split: if_splits)

lemma edge_static: "segKey s \<noteq> None \<Longrightarrow> edge h a (segKey s) = map_of (staticChildren (cells h a)) s"
  by (cases "segKey s") (auto simp: edge_def dest: segKey_Some)

lemma allocated_edge:
  assumes "childrenAllocated h" and "a < nextAddr h" and "edge h a k = Some b"
  shows "b < nextAddr h"
proof (cases k)
  case None
  then show ?thesis using assms by (simp add: childrenAllocated_def edge_def)
next
  case (Some s)
  then have "(s, b) \<in> set (staticChildren (cells h a))"
    using assms(3) by (simp add: edge_def map_of_SomeD)
  then show ?thesis using assms(1,2) by (force simp: childrenAllocated_def)
qed

subsection \<open>Resolution follows the edges\<close>

lemma findChildCmd_edge:
  assumes "a < nextAddr h" and "keysOk h" and "aliasesOk h" and "edge h a (segKey tok) = Some b"
  shows "findChildCmd h a tok = Some b"
proof (cases "segKey tok")
  case (Some s)
  then have "map_of (staticChildren (cells h a)) tok = Some b"
    using assms(4) edge_static [of tok h a] by simp
  then show ?thesis by (simp add: findChildCmd_def)
next
  case None
  have m: "map_of (staticChildren (cells h a)) tok = None"
  proof (rule ccontr)
    assume "map_of (staticChildren (cells h a)) tok \<noteq> None"
    then obtain x where "map_of (staticChildren (cells h a)) tok = Some x" by auto
    then have "(tok, x) \<in> set (staticChildren (cells h a))" by (rule map_of_SomeD)
    then have "segKey tok \<noteq> None" using assms(1,2) by (force simp: keysOk_def)
    then show False using None by simp
  qed
  have "\<forall>kv\<in>set (staticChildren (cells h a)). tok \<notin> set (Aliases (cells h (snd kv)))"
    using assms(1,3) None by (force simp: aliasesOk_def noWildAlias_def)
  then have f: "find (\<lambda>kv. tok \<in> set (Aliases (cells h (snd kv)))) (staticChildren (cells h a)) = None"
    by (force simp: find_None_iff)
  show ?thesis
    using m f assms(4) None by (simp add: findChildCmd_def edge_def)
qed

lemma findLoop_walk:
  assumes "childrenAllocated h" and "keysOk h" and "aliasesOk h"
  shows "a < nextAddr h \<Longrightarrow> walk h a (map segKey toks) = Some b \<Longrightarrow>
         \<exists>ctx'. findLoop h a cm ctx toks = ((if toks = [] then cm else Some b), [], ctx')"
proof (induction toks arbitrary: a cm ctx)
  case Nil
  then show ?case by simp
next
  case (Cons t toks)
  from Cons.prems(2) obtain n where e: "edge h a (segKey t) = Some n"
    and w: "walk h n (map segKey toks) = Some b"
    by (auto split: option.splits)
  have n: "n < nextAddr h" using allocated_edge [OF assms(1) Cons.prems(1) e] .
  have f: "findChildCmd h a t = Some n" using findChildCmd_edge [OF Cons.prems(1) assms(2,3) e] .
  let ?ctx = "if kind (cells h n) = ParamKind
             then ctx\<lparr>Params := Params ctx @ [\<lparr>Key = Name (cells h n), Value = t\<rparr>]\<rparr>
             else ctx"
  obtain ctx' where l: "findLoop h n (Some n) ?ctx toks = ((if toks = [] then Some n else Some b), [], ctx')"
    using Cons.IH [OF n w, of "Some n" ?ctx] by blast
  have "b = n" if "toks = []" using that w by simp
  then have "findLoop h n (Some n) ?ctx toks = (Some b, [], ctx')" using l by auto
  then show ?case using f by simp
qed

lemma FindCmd_walk:
  assumes "treeInv h" and "a < nextAddr h" and "walk h a (map segKey toks) = Some b" and "toks \<noteq> []"
  shows "fst (FindCmd h a toks ctx) = Some b \<and> fst (snd (FindCmd h a toks ctx)) = []"
proof -
  obtain ctx' where "findLoop h a None (case ctx of None \<Rightarrow> \<lparr>Params = []\<rparr> | Some x \<Rightarrow> x) toks = (Some b, [], ctx')"
    using findLoop_walk [OF _ _ _ assms(2,3), of None "(case ctx of None \<Rightarrow> \<lparr>Params = []\<rparr> | Some x \<Rightarrow> x)"]
      assms(1,4) by (auto simp: treeInv_def)
  then show ?thesis by (simp add: FindCmd_def)
qed

lemma addCmd_old:
  assumes "Name (cells h ch) = name" and "name \<noteq> []" and "edge h par (segKey name) = Some e"
  shows "addCmd h par ch = Inr (h, e)"
proof (cases name)
  case Nil
  then show ?thesis using assms(2) by simp
next
  case (Cons c rest)
  show ?thesis
  proof (cases "c = paramLabel")
    case True
    then show ?thesis using assms Cons by (simp add: addCmd_def edge_def)
  next
    case False
    then show ?thesis using assms Cons by (simp add: addCmd_def edge_def)
  qed
qed

lemma addCmd_new:
  assumes "Name (cells h ch) = name" and "name \<noteq> []" and "edge h par (segKey name) = None"
  shows "\<exists>h'. addCmd h par ch = Inr (h', ch) \<and> nextAddr h' = nextAddr h \<and>
           (\<forall>a k. edge h' a k = (if a = par \<and> k = segKey name then Some ch else edge h a k)) \<and>
           (\<forall>a. Aliases (cells h' a) = Aliases (cells h a)) \<and>
           (\<forall>a. a \<noteq> ch \<longrightarrow> Name (cells h' a) = Name (cells h a)) \<and>
           (\<forall>a. set (staticChildren (cells h' a)) =
                 set (staticChildren (cells h a)) \<union>
                 (if a = par \<and> segKey name \<noteq> None then {(name, ch)} else {}))"
proof (cases name)
  case Nil
  then show ?thesis using assms(2) by simp
next
  case (Cons c rest)
  show ?thesis
  proof (cases "c = paramLabel")
    case True
    have pc: "paramChild (cells h par) = None" using assms(3) Cons True by (simp add: edge_def)
    define h' where "h' = upd (upd (upd (upd h ch (\<lambda>n. n\<lparr>Name := rest\<rparr>)) ch (\<lambda>n. n\<lparr>kind := ParamKind\<rparr>))
                       ch (\<lambda>n. n\<lparr>parent := Some par\<rparr>)) par (\<lambda>n. n\<lparr>paramChild := Some ch\<rparr>)"
    have a: "addCmd h par ch = Inr (h', ch)"
      unfolding h'_def using addCmd_wild_new [of h ch rest par] assms(1) Cons True pc by simp
    have e: "edge h' a k = (if a = par \<and> k = segKey name then Some ch else edge h a k)" for a k
      using Cons True by (cases k) (auto simp: h'_def edge_def cells_upd)
    have "Aliases (cells h' a) = Aliases (cells h a)" for a
      by (simp add: h'_def cells_upd)
    moreover have "a \<noteq> ch \<Longrightarrow> Name (cells h' a) = Name (cells h a)" for a
      by (simp add: h'_def cells_upd)
    moreover have "set (staticChildren (cells h' a)) = set (staticChildren (cells h a)) \<union>
                 (if a = par \<and> segKey name \<noteq> None then {(name, ch)} else {})" for a
      using Cons True by (simp add: h'_def cells_upd)
    moreover have "nextAddr h' = nextAddr h" by (simp add: h'_def)
    ultimately show ?thesis using a e by blast
  next
    case False
    have sk: "segKey name = Some name" using Cons False by simp
    have m: "map_of (staticChildren (cells h par)) (c # rest) = None"
      using assms(3) Cons sk by (simp add: edge_def)
    define h' where "h' = upd (upd (upd h ch (\<lambda>n. n\<lparr>kind := StaticKind\<rparr>)) ch (\<lambda>n. n\<lparr>parent := Some par\<rparr>))
                            par (\<lambda>n. n\<lparr>staticChildren := staticChildren n @ [(c # rest, ch)]\<rparr>)"
    have a: "addCmd h par ch = Inr (h', ch)"
      unfolding h'_def using assms(1) Cons False m by (simp add: addCmd_def Let_def)
    have e: "edge h' a k = (if a = par \<and> k = segKey name then Some ch else edge h a k)" for a k
    proof (cases k)
      case None
      then show ?thesis using sk by (simp add: h'_def edge_def cells_upd)
    next
      case (Some s)
      show ?thesis
      proof (cases "a = par")
        case True
        then show ?thesis
          using Some sk Cons m
          by (auto simp: h'_def edge_def cells_upd map_add_def split: option.splits)
      next
        case False
        then show ?thesis using Some by (simp add: h'_def edge_def cells_upd)
      qed
    qed
    have "Aliases (cells h' a) = Aliases (cells h a)" for a
      by (simp add: h'_def cells_upd)
    moreover have "a \<noteq> ch \<Longrightarrow> Name (cells h' a) = Name (cells h a)" for a
      by (simp add: h'_def cells_upd)
    moreover have "set (staticChildren (cells h' a)) = set (staticChildren (cells h a)) \<union>
                 (if a = par \<and> segKey name \<noteq> None then {(name, ch)} else {})" for a
      using Cons sk by (simp add: h'_def cells_upd)
    moreover have "nextAddr h' = nextAddr h" by (simp add: h'_def)
    ultimately show ?thesis using a e by blast
  qed
qed

lemma newCmd_cells:
  "cells (fst (newCmd h name)) x = (if x = nextAddr h then zeroCmd\<lparr>Name := name\<rparr> else cells h x)"
  "nextAddr (fst (newCmd h name)) = Suc (nextAddr h)"
  "snd (newCmd h name) = nextAddr h"
  by (simp_all add: newCmd_def)

lemma edge_newCmd:
  "edge (fst (newCmd h name)) x k = (if x = nextAddr h then None else edge h x k)"
  by (cases k) (simp_all add: edge_def newCmd_cells zeroCmd_def)

lemma addPath_Cons:
  assumes "addPath h lst (name # names) path = Inr (h', r)"
  shows "name \<noteq> [] \<and> (\<exists>h2 r2. addCmd (fst (newCmd h name)) lst (nextAddr h) = Inr (h2, r2) \<and>
            addPath h2 r2 names path = Inr (h', r))"
  using assms
  by (cases name) (auto simp: newCmd_def split: if_splits sum.splits prod.splits)

subsection \<open>One round of the loop of \<open>AddCmd\<close>\<close>

lemma round_old:
  assumes "lst < nextAddr h" and "name \<noteq> []"
    and "addCmd (fst (newCmd h name)) lst (nextAddr h) = Inr (h2, r2)"
    and "edge h lst (segKey name) = Some e"
  shows "h2 = fst (newCmd h name) \<and> r2 = e"
proof -
  have "edge (fst (newCmd h name)) lst (segKey name) = Some e"
    using assms(1,4) by (simp add: edge_newCmd)
  from addCmd_old [OF _ assms(2) this, of "nextAddr h"] assms(3)
  show ?thesis by (simp add: newCmd_cells)
qed

lemma round_new:
  assumes "lst < nextAddr h" and "name \<noteq> []"
    and "addCmd (fst (newCmd h name)) lst (nextAddr h) = Inr (h2, r2)"
    and "edge h lst (segKey name) = None"
  shows "r2 = nextAddr h \<and> nextAddr h2 = Suc (nextAddr h) \<and>
         (\<forall>x k. edge h2 x k = (if x = lst \<and> k = segKey name then Some (nextAddr h)
                                else if x = nextAddr h then None else edge h x k)) \<and>
         (\<forall>x. x \<noteq> nextAddr h \<longrightarrow> Name (cells h2 x) = Name (cells h x)) \<and>
         (\<forall>x. x \<noteq> nextAddr h \<longrightarrow> Aliases (cells h2 x) = Aliases (cells h x)) \<and>
         Aliases (cells h2 (nextAddr h)) = [] \<and>
         (\<forall>x. set (staticChildren (cells h2 x)) =
               (if x = nextAddr h then {} else set (staticChildren (cells h x))) \<union>
               (if x = lst \<and> segKey name \<noteq> None then {(name, nextAddr h)} else {}))"
proof -
  let ?h1 = "fst (newCmd h name)"
  have e1: "edge ?h1 lst (segKey name) = None"
    using assms(1,4) by (simp add: edge_newCmd)
  have n1: "Name (cells ?h1 (nextAddr h)) = name" by (simp add: newCmd_cells)
  from addCmd_new [OF n1 assms(2) e1] assms(3)
  have r: "r2 = nextAddr h" and nx: "nextAddr h2 = nextAddr ?h1"
    and ed: "\<And>a k. edge h2 a k = (if a = lst \<and> k = segKey name then Some (nextAddr h) else edge ?h1 a k)"
    and al: "\<And>a. Aliases (cells h2 a) = Aliases (cells ?h1 a)"
    and nm: "\<And>a. a \<noteq> nextAddr h \<Longrightarrow> Name (cells h2 a) = Name (cells ?h1 a)"
    and st: "\<And>a. set (staticChildren (cells h2 a)) = set (staticChildren (cells ?h1 a)) \<union>
                 (if a = lst \<and> segKey name \<noteq> None then {(name, nextAddr h)} else {})"
    by auto
  show ?thesis
    using r nx ed al nm st
    by (simp add: newCmd_cells edge_newCmd zeroCmd_def)
qed

lemma onlyPath_alloc: "onlyPath h a ks e \<Longrightarrow> a < nextAddr h"
  by (cases ks) auto

lemma onlyPath_end: "onlyPath h a ks e \<Longrightarrow> e < nextAddr h \<and> (\<forall>k. edge h e k = None)"
  by (induction ks arbitrary: a) (auto split: option.splits)

lemma onlyPath_walk: "onlyPath h a ks e \<Longrightarrow> walk h a ks = Some e"
  by (induction ks arbitrary: a) (auto split: option.splits)

lemma onlyPath_cong:
  assumes "nextAddr h \<le> nextAddr h'" and "\<forall>x<nextAddr h. \<forall>k. edge h' x k = edge h x k"
  shows "onlyPath h a ks e \<Longrightarrow> onlyPath h' a ks e"
proof (induction ks arbitrary: a)
  case Nil
  then show ?case using assms by auto
next
  case (Cons k ks)
  from Cons.prems obtain b where a: "a < nextAddr h" and e: "edge h a k = Some b"
    and o: "\<forall>k'. k' \<noteq> k \<longrightarrow> edge h a k' = None" and c: "onlyPath h b ks e"
    by (auto split: option.splits)
  have "onlyPath h' b ks e" using Cons.IH [OF c] .
  then show ?case using assms a e o by simp
qed

lemma onlyPath_head:
  assumes "onlyPath h a ks e" and "edge h a k = Some n"
  shows "\<exists>ks'. ks = k # ks' \<and> onlyPath h n ks' e"
proof (cases ks)
  case Nil
  then show ?thesis using assms by auto
next
  case (Cons k1 ks')
  then have "k = k1" using assms by (cases "k = k1") (auto split: option.splits)
  then show ?thesis using assms Cons by (auto split: option.splits)
qed

lemma onlyPath_no_edge:
  assumes "onlyPath h a ks e" and "\<not> prefix [kf] ks"
  shows "edge h a kf = None"
proof (cases ks)
  case Nil
  then show ?thesis using assms by auto
next
  case (Cons k1 ks')
  then have "kf \<noteq> k1" using assms(2) by auto
  then show ?thesis using assms(1) Cons by (auto split: option.splits)
qed

lemma addPath_fresh:
  assumes "addPath h lst names path = Inr (h', r)" and "lst < nextAddr h"
    and "\<forall>k. edge h lst k = None"
  shows "onlyPath h' lst (map segKey names) r \<and> nextAddr h \<le> nextAddr h' \<and>
         (\<forall>x<nextAddr h. x \<noteq> lst \<longrightarrow> (\<forall>k. edge h' x k = edge h x k)) \<and>
         (r = lst \<or> nextAddr h \<le> r)"
  using assms
proof (induction names arbitrary: h lst)
  case Nil
  then show ?case by simp
next
  case (Cons name names)
  from addPath_Cons [OF Cons.prems(1)] obtain h2 r2 where ne: "name \<noteq> []"
    and ac: "addCmd (fst (newCmd h name)) lst (nextAddr h) = Inr (h2, r2)"
    and ap: "addPath h2 r2 names path = Inr (h', r)"
    by blast
  have none: "edge h lst (segKey name) = None" using Cons.prems(3) by simp
  from round_new [OF Cons.prems(2) ne ac none]
  have r2: "r2 = nextAddr h" and nx: "nextAddr h2 = Suc (nextAddr h)"
    and ed: "\<And>x k. edge h2 x k = (if x = lst \<and> k = segKey name then Some (nextAddr h)
                                else if x = nextAddr h then None else edge h x k)"
    by auto
  have f2: "\<forall>k. edge h2 r2 k = None" using r2 ed Cons.prems(2) by simp
  have a2: "r2 < nextAddr h2" using r2 nx by simp
  from Cons.IH [OF ap a2 f2]
  have ch: "onlyPath h' r2 (map segKey names) r" and le: "nextAddr h2 \<le> nextAddr h'"
    and fr: "\<And>x k. x < nextAddr h2 \<Longrightarrow> x \<noteq> r2 \<Longrightarrow> edge h' x k = edge h2 x k"
    and rr: "r = r2 \<or> nextAddr h2 \<le> r"
    by auto
  have l: "\<And>k. edge h' lst k = (if k = segKey name then Some r2 else None)"
    using fr [of lst] ed r2 nx Cons.prems(2,3) by simp
  have "onlyPath h' lst (map segKey (name # names)) r"
    using l ch le nx Cons.prems(2) by simp
  moreover have "nextAddr h \<le> nextAddr h'" using le nx by simp
  moreover have "\<forall>x<nextAddr h. x \<noteq> lst \<longrightarrow> (\<forall>k. edge h' x k = edge h x k)"
    using fr ed r2 nx by simp
  moreover have "r = lst \<or> nextAddr h \<le> r" using rr r2 nx by auto
  ultimately show ?case by blast
qed

lemma addPath_onlyPath:
  assumes "addPath h lst names path = Inr (h', r)" and "onlyPath h lst ks1 e"
  shows "walk h' lst (map segKey names) = Some r \<and> nextAddr h \<le> nextAddr h' \<and> r < nextAddr h' \<and>
         (\<forall>x<nextAddr h. \<forall>k b. edge h x k = Some b \<longrightarrow> edge h' x k = Some b) \<and>
         (\<forall>kf. \<not> prefix (map segKey names @ [kf]) ks1 \<longrightarrow> edge h' r kf = None)"
  using assms
proof (induction names arbitrary: h lst ks1)
  case Nil
  then show ?case using onlyPath_alloc [of h lst ks1 e] onlyPath_no_edge [of h lst ks1 e] by auto
next
  case (Cons name names)
  from addPath_Cons [OF Cons.prems(1)] obtain h2 r2 where ne: "name \<noteq> []"
    and ac: "addCmd (fst (newCmd h name)) lst (nextAddr h) = Inr (h2, r2)"
    and ap: "addPath h2 r2 names path = Inr (h', r)"
    by blast
  have la: "lst < nextAddr h" using Cons.prems(2) by (rule onlyPath_alloc)
  show ?case
  proof (cases "edge h lst (segKey name)")
    case (Some n)
    from onlyPath_head [OF Cons.prems(2) Some] obtain ks' where ks1: "ks1 = segKey name # ks'"
      and cn: "onlyPath h n ks' e" by blast
    from round_old [OF la ne ac Some] have h2: "h2 = fst (newCmd h name)" and r2: "r2 = n" by auto
    have nx: "nextAddr h2 = Suc (nextAddr h)" using h2 by (simp add: newCmd_cells)
    have same: "\<forall>x<nextAddr h. \<forall>k. edge h2 x k = edge h x k" using h2 by (simp add: edge_newCmd)
    have c2: "onlyPath h2 n ks' e" using onlyPath_cong [OF _ same cn] nx by simp
    from Cons.IH [OF ap [unfolded r2] c2]
    have w: "walk h' n (map segKey names) = Some r" and le: "nextAddr h2 \<le> nextAddr h'"
      and ra: "r < nextAddr h'"
      and mono: "\<And>x k b. x < nextAddr h2 \<Longrightarrow> edge h2 x k = Some b \<Longrightarrow> edge h' x k = Some b"
      and kf: "\<And>kf. \<not> prefix (map segKey names @ [kf]) ks' \<Longrightarrow> edge h' r kf = None"
      by auto
    have "edge h' lst (segKey name) = Some n"
      using mono [of lst "segKey name" n] same la nx Some by simp
    then have "walk h' lst (map segKey (name # names)) = Some r" using w by simp
    moreover have "nextAddr h \<le> nextAddr h'" using le nx by simp
    moreover have "\<forall>x<nextAddr h. \<forall>k b. edge h x k = Some b \<longrightarrow> edge h' x k = Some b"
      using mono same nx by simp
    moreover have "\<forall>kf. \<not> prefix (map segKey (name # names) @ [kf]) ks1 \<longrightarrow> edge h' r kf = None"
      using kf ks1 by simp
    ultimately show ?thesis using ra by blast
  next
    case None
    from round_new [OF la ne ac None]
    have r2: "r2 = nextAddr h" and nx: "nextAddr h2 = Suc (nextAddr h)"
      and ed: "\<And>x k. edge h2 x k = (if x = lst \<and> k = segKey name then Some (nextAddr h)
                                else if x = nextAddr h then None else edge h x k)"
      by auto
    have f2: "\<forall>k. edge h2 r2 k = None" using r2 ed la by simp
    have a2: "r2 < nextAddr h2" using r2 nx by simp
    from addPath_fresh [OF ap a2 f2]
    have ch: "onlyPath h' r2 (map segKey names) r" and le: "nextAddr h2 \<le> nextAddr h'"
      and fr: "\<And>x k. x < nextAddr h2 \<Longrightarrow> x \<noteq> r2 \<Longrightarrow> edge h' x k = edge h2 x k"
      by auto
    have "edge h' lst (segKey name) = Some r2"
      using fr [of lst "segKey name"] ed r2 nx la by simp
    then have "walk h' lst (map segKey (name # names)) = Some r"
      using onlyPath_walk [OF ch] by simp
    moreover have "nextAddr h \<le> nextAddr h'" using le nx by simp
    moreover have "r < nextAddr h'" "\<forall>kf. edge h' r kf = None" using onlyPath_end [OF ch] by auto
    moreover have "\<forall>x<nextAddr h. \<forall>k b. edge h x k = Some b \<longrightarrow> edge h' x k = Some b"
    proof (intro allI impI)
      fix x k b assume x: "x < nextAddr h" and e: "edge h x k = Some b"
      have "\<not> (x = lst \<and> k = segKey name)" using e None by auto
      then have "edge h2 x k = Some b" using ed [of x k] x e by auto
      then show "edge h' x k = Some b" using fr [of x k] x r2 nx by simp
    qed
    ultimately show ?thesis by blast
  qed
qed

lemma edge_upd_fields [simp]:
  "(\<And>n. staticChildren (f n) = staticChildren n) \<Longrightarrow> (\<And>n. paramChild (f n) = paramChild n) \<Longrightarrow>
     edge (upd h c f) x k = edge h x k"
  by (cases k) (simp_all add: edge_def cells_upd)

lemma treeInv_upd_fields:
  assumes "treeInv h" and "\<And>n. staticChildren (f n) = staticChildren n"
    and "\<And>n. paramChild (f n) = paramChild n" and "\<And>n. Aliases (f n) = Aliases n"
  shows "treeInv (upd h c f)"
  using assms by (simp add: treeInv_def childrenAllocated_def keysOk_def aliasesOk_def noWildAlias_def cells_upd)

lemma treeInv_newCmd:
  assumes "treeInv h"
  shows "treeInv (fst (newCmd h name))"
proof -
  have c: "childrenAllocated h" and k: "keysOk h" and a: "aliasesOk h" using assms by (auto simp: treeInv_def)
  have "childrenAllocated (fst (newCmd h name))"
    using c by (auto simp: childrenAllocated_def newCmd_cells zeroCmd_def less_Suc_eq)
  moreover have "keysOk (fst (newCmd h name))"
    using k by (auto simp: keysOk_def newCmd_cells zeroCmd_def less_Suc_eq)
  moreover have "aliasesOk (fst (newCmd h name))"
    unfolding aliasesOk_def
  proof (intro allI impI ballI)
    fix x kv assume x: "x < nextAddr (fst (newCmd h name))"
      and kv: "kv \<in> set (staticChildren (cells (fst (newCmd h name)) x))"
    have xn: "x \<noteq> nextAddr h" using kv by (auto simp: newCmd_cells zeroCmd_def)
    then have xl: "x < nextAddr h" using x by (simp add: newCmd_cells)
    have kv': "kv \<in> set (staticChildren (cells h x))" using kv xn by (simp add: newCmd_cells)
    then have "snd kv < nextAddr h" using c xl by (auto simp: childrenAllocated_def)
    then have "cells (fst (newCmd h name)) (snd kv) = cells h (snd kv)" by (simp add: newCmd_cells)
    then show "noWildAlias (cells (fst (newCmd h name)) (snd kv))"
      using a xl kv' by (auto simp: aliasesOk_def)
  qed
  ultimately show ?thesis by (simp add: treeInv_def)
qed

text \<open>Attaching a node with harmless aliases keeps the invariant.\<close>

lemma treeInv_attach:
  assumes "treeInv h" and "ch < nextAddr h" and "noWildAlias (cells h ch)"
    and "nextAddr h' = nextAddr h"
    and "\<forall>a k. edge h' a k = (if a = par \<and> k = segKey name then Some ch else edge h a k)"
    and "\<forall>a. Aliases (cells h' a) = Aliases (cells h a)"
    and "\<forall>a. set (staticChildren (cells h' a)) =
                 set (staticChildren (cells h a)) \<union>
                 (if a = par \<and> segKey name \<noteq> None then {(name, ch)} else {})"
  shows "treeInv h'"
proof -
  have c: "childrenAllocated h" and k: "keysOk h" and a: "aliasesOk h" using assms(1) by (auto simp: treeInv_def)
  have pc: "paramChild (cells h' x) = (if x = par \<and> segKey name = None then Some ch else paramChild (cells h x))" for x
    using assms(5) [rule_format, of x None] by (auto simp: edge_def)
  have nw: "noWildAlias (cells h' x) = noWildAlias (cells h x)" for x
    using assms(6) by (simp add: noWildAlias_def)
  have "childrenAllocated h'"
    using c assms(2,4,7) pc by (auto simp: childrenAllocated_def split: if_splits)
  moreover have "keysOk h'"
    using k assms(4,7) by (auto simp: keysOk_def split: if_splits)
  moreover have "aliasesOk h'"
    using a assms(3,4,7) nw by (auto simp: aliasesOk_def split: if_splits)
  ultimately show ?thesis by (simp add: treeInv_def)
qed

lemma addPath_treeInv:
  assumes "addPath h lst names path = Inr (h', r)" and "treeInv h" and "lst < nextAddr h"
  shows "treeInv h' \<and> r < nextAddr h' \<and> nextAddr h \<le> nextAddr h' \<and>
         (\<forall>x<nextAddr h. Name (cells h' x) = Name (cells h x) \<and>
                          Aliases (cells h' x) = Aliases (cells h x))"
  using assms
proof (induction names arbitrary: h lst)
  case Nil
  then show ?case by simp
next
  case (Cons name names)
  from addPath_Cons [OF Cons.prems(1)] obtain h2 r2 where ne: "name \<noteq> []"
    and ac: "addCmd (fst (newCmd h name)) lst (nextAddr h) = Inr (h2, r2)"
    and ap: "addPath h2 r2 names path = Inr (h', r)"
    by blast
  let ?h1 = "fst (newCmd h name)"
  have i1: "treeInv ?h1" using Cons.prems(2) by (rule treeInv_newCmd)
  have step: "treeInv h2 \<and> r2 < nextAddr h2 \<and> nextAddr h2 = Suc (nextAddr h) \<and>
         (\<forall>x<nextAddr h. Name (cells h2 x) = Name (cells h x) \<and>
                          Aliases (cells h2 x) = Aliases (cells h x))"
  proof (cases "edge h lst (segKey name)")
    case (Some e)
    from round_old [OF Cons.prems(3) ne ac Some] have h2: "h2 = ?h1" and r2: "r2 = e" by auto
    have "e < nextAddr h" using allocated_edge [OF _ Cons.prems(3) Some] Cons.prems(2) by (simp add: treeInv_def)
    then show ?thesis using h2 r2 i1 by (simp add: newCmd_cells)
  next
    case None
    have e1: "edge ?h1 lst (segKey name) = None"
      using Cons.prems(3) None by (simp add: edge_newCmd)
    have n1: "Name (cells ?h1 (nextAddr h)) = name" by (simp add: newCmd_cells)
    from addCmd_new [OF n1 ne e1] ac
    have r: "r2 = nextAddr h" and nx: "nextAddr h2 = nextAddr ?h1"
      and ed: "\<forall>a k. edge h2 a k = (if a = lst \<and> k = segKey name then Some (nextAddr h) else edge ?h1 a k)"
      and al: "\<forall>a. Aliases (cells h2 a) = Aliases (cells ?h1 a)"
      and nm: "\<forall>a. a \<noteq> nextAddr h \<longrightarrow> Name (cells h2 a) = Name (cells ?h1 a)"
      and st: "\<forall>a. set (staticChildren (cells h2 a)) = set (staticChildren (cells ?h1 a)) \<union>
                 (if a = lst \<and> segKey name \<noteq> None then {(name, nextAddr h)} else {})"
      by auto
    have "treeInv h2"
    proof (rule treeInv_attach [OF i1 _ _ nx ed al st])
      show "nextAddr h < nextAddr ?h1" by (simp add: newCmd_cells)
      show "noWildAlias (cells ?h1 (nextAddr h))" by (simp add: noWildAlias_def newCmd_cells zeroCmd_def)
    qed
    then show ?thesis using r nx al nm by (simp add: newCmd_cells)
  qed
  then have i2: "treeInv h2" and a2: "r2 < nextAddr h2" and nx: "nextAddr h2 = Suc (nextAddr h)"
    and old: "\<And>x. x < nextAddr h \<Longrightarrow> Name (cells h2 x) = Name (cells h x) \<and>
                          Aliases (cells h2 x) = Aliases (cells h x)"
    by auto
  from Cons.IH [OF ap i2 a2]
  have "treeInv h'" "r < nextAddr h'" "nextAddr h2 \<le> nextAddr h'"
    and old': "\<And>x. x < nextAddr h2 \<Longrightarrow> Name (cells h' x) = Name (cells h2 x) \<and>
                          Aliases (cells h' x) = Aliases (cells h2 x)"
    by auto
  then show ?case using nx old by auto
qed

lemma splitOn_ne: "splitOn c s \<noteq> []"
  by (induction s) (auto split: list.splits)

lemma pathNames_ne: "pathNames p \<noteq> []"
  by (simp add: pathNames_def Split_def spliter_def splitOn_ne)

lemma addCmd_Name_ne: "addCmd h par ch = Inr x \<Longrightarrow> Name (cells h ch) \<noteq> []"
  by (auto simp: addCmd_def)

lemma AddCmd_steps:
  assumes "AddCmd h root c = Inr h'"
  shows "\<exists>hb r r'.
           addPath (upd h c (\<lambda>n. n\<lparr>Name := TrimSuffix (TrimPrefix (Name n) spliter) spliter\<rparr>)) root
             (butlast (pathNames (Name (cells h c))))
             (TrimSuffix (TrimPrefix (Name (cells h c)) spliter) spliter) = Inr (hb, r) \<and>
           addCmd (upd hb c (\<lambda>n. n\<lparr>Name := last (pathNames (Name (cells h c)))\<rparr>)) r c = Inr (h', r') \<and>
           last (pathNames (Name (cells h c))) \<noteq> []"
proof -
  have ne: "Name (cells h c) \<noteq> []" using assms by (auto simp: AddCmd_def)
  let ?ha = "upd h c (\<lambda>n. n\<lparr>Name := TrimSuffix (TrimPrefix (Name n) spliter) spliter\<rparr>)"
  let ?names = "pathNames (Name (cells h c))"
  let ?path = "TrimSuffix (TrimPrefix (Name (cells h c)) spliter) spliter"
  from AddCmd_names [OF ne refl, of root] assms
  obtain hb r where ap: "addPath ?ha root (butlast ?names) ?path = Inr (hb, r)"
    and "(case addCmd (upd hb c (\<lambda>n. n\<lparr>Name := last ?names\<rparr>)) r c of
            Inl e \<Rightarrow> Inl e | Inr (h4, r) \<Rightarrow> Inr h4) = Inr h'"
    by (auto split: sum.splits)
  then obtain r' where ac: "addCmd (upd hb c (\<lambda>n. n\<lparr>Name := last ?names\<rparr>)) r c = Inr (h', r')"
    by (auto split: sum.splits)
  have "last ?names \<noteq> []" using addCmd_Name_ne [OF ac] by (simp add: cells_upd)
  then show ?thesis using ap ac by blast
qed

lemma AddCmd_treeInv:
  assumes "AddCmd h root c = Inr h'" and "treeInv h" and "root < nextAddr h" and "c < nextAddr h"
    and "noWildAlias (cells h c)"
  shows "treeInv h' \<and> nextAddr h \<le> nextAddr h' \<and>
         (\<forall>x<nextAddr h. x \<noteq> c \<longrightarrow> Name (cells h' x) = Name (cells h x)) \<and>
         (\<forall>x<nextAddr h. Aliases (cells h' x) = Aliases (cells h x))"
proof -
  let ?ha = "upd h c (\<lambda>n. n\<lparr>Name := TrimSuffix (TrimPrefix (Name n) spliter) spliter\<rparr>)"
  let ?names = "pathNames (Name (cells h c))"
  from AddCmd_steps [OF assms(1)] obtain hb r r' where
    ap: "addPath ?ha root (butlast ?names) (TrimSuffix (TrimPrefix (Name (cells h c)) spliter) spliter) = Inr (hb, r)"
    and ac: "addCmd (upd hb c (\<lambda>n. n\<lparr>Name := last ?names\<rparr>)) r c = Inr (h', r')"
    and ln: "last ?names \<noteq> []"
    by blast
  let ?hc = "upd hb c (\<lambda>n. n\<lparr>Name := last ?names\<rparr>)"
  have ia: "treeInv ?ha" by (rule treeInv_upd_fields [OF assms(2)]) simp_all
  from addPath_treeInv [OF ap ia] assms(3)
  have ib: "treeInv hb" and rb: "r < nextAddr hb" and le: "nextAddr h \<le> nextAddr hb"
    and old: "\<And>x. x < nextAddr h \<Longrightarrow> Name (cells hb x) = Name (cells ?ha x) \<and>
                          Aliases (cells hb x) = Aliases (cells ?ha x)"
    by auto
  have ic: "treeInv ?hc" by (rule treeInv_upd_fields [OF ib]) simp_all
  have nc: "Name (cells ?hc c) = last ?names" by (simp add: cells_upd)
  have alc: "Aliases (cells ?hc x) = Aliases (cells h x)" if "x < nextAddr h" for x
    using old [OF that] by (cases "x = c") (simp_all add: cells_upd)
  have nmc: "Name (cells ?hc x) = Name (cells h x)" if "x < nextAddr h" "x \<noteq> c" for x
    using old [OF that(1)] that(2) by (simp add: cells_upd)
  have fin: "treeInv h' \<and> nextAddr h' = nextAddr ?hc \<and> (\<forall>x. Aliases (cells h' x) = Aliases (cells ?hc x)) \<and>
             (\<forall>x. x \<noteq> c \<longrightarrow> Name (cells h' x) = Name (cells ?hc x))"
  proof (cases "edge ?hc r (segKey (last ?names))")
    case (Some e)
    from addCmd_old [OF nc ln Some] ac have "h' = ?hc" by simp
    then show ?thesis using ic by simp
  next
    case None
    from addCmd_new [OF nc ln None] ac
    have nx: "nextAddr h' = nextAddr ?hc"
      and ed: "\<forall>a k. edge h' a k = (if a = r \<and> k = segKey (last ?names) then Some c else edge ?hc a k)"
      and al: "\<forall>a. Aliases (cells h' a) = Aliases (cells ?hc a)"
      and nm: "\<forall>a. a \<noteq> c \<longrightarrow> Name (cells h' a) = Name (cells ?hc a)"
      and st: "\<forall>a. set (staticChildren (cells h' a)) = set (staticChildren (cells ?hc a)) \<union>
                 (if a = r \<and> segKey (last ?names) \<noteq> None then {(last ?names, c)} else {})"
      by auto
    have "treeInv h'"
    proof (rule treeInv_attach [OF ic _ _ nx ed al st])
      show "c < nextAddr ?hc" using assms(4) le by simp
      show "noWildAlias (cells ?hc c)" using assms(5) alc [OF assms(4)] by (simp add: noWildAlias_def)
    qed
    then show ?thesis using nx al nm by simp
  qed
  then show ?thesis using le alc nmc by auto
qed

lemma walk_append:
  "walk h a (ks @ ks') = (case walk h a ks of None \<Rightarrow> None | Some b \<Rightarrow> walk h b ks')"
  by (induction ks arbitrary: a) (auto split: option.splits)

lemma walk_mono:
  assumes "\<forall>x k b. edge h x k = Some b \<longrightarrow> edge h' x k = Some b"
  shows "walk h a ks = Some e \<Longrightarrow> walk h' a ks = Some e"
  using assms by (induction ks arbitrary: a) (auto split: option.splits)

lemma onlyPath_walk_mono:
  assumes "\<forall>x<nextAddr h. \<forall>k b. edge h x k = Some b \<longrightarrow> edge h' x k = Some b"
  shows "onlyPath h a ks e \<Longrightarrow> walk h' a ks = Some e"
proof (induction ks arbitrary: a)
  case Nil
  then show ?case by simp
next
  case (Cons k ks)
  from Cons.prems obtain b where a: "a < nextAddr h" and e: "edge h a k = Some b"
    and c: "onlyPath h b ks e"
    by (auto split: option.splits)
  have "edge h' a k = Some b" using assms a e by blast
  then show ?case using Cons.IH [OF c] by simp
qed

lemma onlyPath_snoc:
  assumes "c < nextAddr h" and "c \<noteq> r" and "\<forall>k. edge h c k = None"
    and "nextAddr h' = nextAddr h"
    and "\<forall>x k. edge h' x k = (if x = r \<and> k = kf then Some c else edge h x k)"
  shows "onlyPath h a ks r \<Longrightarrow> onlyPath h' a (ks @ [kf]) c"
proof (induction ks arbitrary: a)
  case Nil
  then show ?case using assms by auto
next
  case (Cons k ks)
  from Cons.prems obtain b where a: "a < nextAddr h" and e: "edge h a k = Some b"
    and o: "\<forall>k'. k' \<noteq> k \<longrightarrow> edge h a k' = None" and ch: "onlyPath h b ks r"
    by (auto split: option.splits)
  have "a \<noteq> r" using onlyPath_end [OF ch] e by auto
  then have "\<And>k'. edge h' a k' = edge h a k'" using assms(5) by simp
  then show ?case using Cons.IH [OF ch] a e o assms(4) by simp
qed

lemma AddCmd_first:
  assumes "AddCmd h root c = Inr h'" and "root < nextAddr h" and "c < nextAddr h" and "c \<noteq> root"
    and "\<forall>k. edge h root k = None" and "\<forall>k. edge h c k = None"
  shows "onlyPath h' root (map segKey (pathNames (Name (cells h c)))) c"
proof -
  let ?ha = "upd h c (\<lambda>n. n\<lparr>Name := TrimSuffix (TrimPrefix (Name n) spliter) spliter\<rparr>)"
  let ?names = "pathNames (Name (cells h c))"
  from AddCmd_steps [OF assms(1)] obtain hb r r' where
    ap: "addPath ?ha root (butlast ?names) (TrimSuffix (TrimPrefix (Name (cells h c)) spliter) spliter) = Inr (hb, r)"
    and ac: "addCmd (upd hb c (\<lambda>n. n\<lparr>Name := last ?names\<rparr>)) r c = Inr (h', r')"
    and ln: "last ?names \<noteq> []"
    by blast
  let ?hc = "upd hb c (\<lambda>n. n\<lparr>Name := last ?names\<rparr>)"
  have "root < nextAddr ?ha" "\<forall>k. edge ?ha root k = None" using assms(2,5) by simp_all
  from addPath_fresh [OF ap this]
  have ch: "onlyPath hb root (map segKey (butlast ?names)) r" and le: "nextAddr ?ha \<le> nextAddr hb"
    and fr: "\<And>x k. x < nextAddr ?ha \<Longrightarrow> x \<noteq> root \<Longrightarrow> edge hb x k = edge ?ha x k"
    and rr: "r = root \<or> nextAddr ?ha \<le> r"
    by auto
  have cr: "c \<noteq> r" using rr assms(3,4) by auto
  have cf: "\<forall>k. edge ?hc c k = None" using fr [of c] assms(3,4,6) by simp
  have chc: "onlyPath ?hc root (map segKey (butlast ?names)) r"
    using onlyPath_cong [OF _ _ ch, of ?hc] by simp
  have nc: "Name (cells ?hc c) = last ?names" by (simp add: cells_upd)
  have "edge ?hc r (segKey (last ?names)) = None" using onlyPath_end [OF chc] by simp
  from addCmd_new [OF nc ln this] ac
  have nx: "nextAddr h' = nextAddr ?hc"
    and ed: "\<forall>a k. edge h' a k = (if a = r \<and> k = segKey (last ?names) then Some c else edge ?hc a k)"
    by auto
  have "c < nextAddr ?hc" using assms(3) le by simp
  from onlyPath_snoc [OF this cr cf nx ed chc]
  have "onlyPath h' root (map segKey (butlast ?names) @ [segKey (last ?names)]) c" .
  moreover have "map segKey (butlast ?names) @ [segKey (last ?names)] = map segKey ?names"
    using pathNames_ne [of "Name (cells h c)"]
    by (metis append_butlast_last_id list.simps(8,9) map_append)
  ultimately show ?thesis by simp
qed

lemma AddCmd_second:
  assumes "AddCmd h root c = Inr h'" and "onlyPath h root ks1 e"
    and "\<not> prefix (map segKey (pathNames (Name (cells h c)))) ks1"
  shows "walk h' root (map segKey (pathNames (Name (cells h c)))) = Some c \<and>
         (\<forall>x<nextAddr h. \<forall>k b. edge h x k = Some b \<longrightarrow> edge h' x k = Some b)"
proof -
  let ?ha = "upd h c (\<lambda>n. n\<lparr>Name := TrimSuffix (TrimPrefix (Name n) spliter) spliter\<rparr>)"
  let ?names = "pathNames (Name (cells h c))"
  from AddCmd_steps [OF assms(1)] obtain hb r r' where
    ap: "addPath ?ha root (butlast ?names) (TrimSuffix (TrimPrefix (Name (cells h c)) spliter) spliter) = Inr (hb, r)"
    and ac: "addCmd (upd hb c (\<lambda>n. n\<lparr>Name := last ?names\<rparr>)) r c = Inr (h', r')"
    and ln: "last ?names \<noteq> []"
    by blast
  let ?hc = "upd hb c (\<lambda>n. n\<lparr>Name := last ?names\<rparr>)"
  have keys: "map segKey (butlast ?names) @ [segKey (last ?names)] = map segKey ?names"
    using pathNames_ne [of "Name (cells h c)"]
    by (metis append_butlast_last_id list.simps(8,9) map_append)
  have cha: "onlyPath ?ha root ks1 e" using onlyPath_cong [OF _ _ assms(2), of ?ha] by simp
  from addPath_onlyPath [OF ap cha]
  have w: "walk hb root (map segKey (butlast ?names)) = Some r"
    and mono: "\<And>x k b. x < nextAddr h \<Longrightarrow> edge h x k = Some b \<Longrightarrow> edge hb x k = Some b"
    and kf: "\<And>kf. \<not> prefix (map segKey (butlast ?names) @ [kf]) ks1 \<Longrightarrow> edge hb r kf = None"
    by auto
  have nc: "Name (cells ?hc c) = last ?names" by (simp add: cells_upd)
  have "edge ?hc r (segKey (last ?names)) = None"
    using kf [of "segKey (last ?names)"] assms(3) keys by simp
  from addCmd_new [OF nc ln this] ac
  have ed: "\<And>a k. edge h' a k = (if a = r \<and> k = segKey (last ?names) then Some c else edge ?hc a k)"
    by auto
  have m2: "\<forall>x k b. edge hb x k = Some b \<longrightarrow> edge h' x k = Some b"
  proof (intro allI impI)
    fix x k b assume "edge hb x k = Some b"
    moreover have "edge hb r (segKey (last ?names)) = None"
      using kf [of "segKey (last ?names)"] assms(3) keys by simp
    ultimately show "edge h' x k = Some b" using ed [of x k] by auto
  qed
  have "walk h' root (map segKey (butlast ?names)) = Some r" using walk_mono [OF m2 w] .
  moreover have "edge h' r (segKey (last ?names)) = Some c" using ed by simp
  ultimately have "walk h' root (map segKey (butlast ?names) @ [segKey (last ?names)]) = Some c"
    by (simp add: walk_append)
  then have "walk h' root (map segKey ?names) = Some c" using keys by simp
  moreover have "\<forall>x<nextAddr h. \<forall>k b. edge h x k = Some b \<longrightarrow> edge h' x k = Some b"
    using mono m2 by blast
  ultimately show ?thesis by blast
qed

lemma treeInv_empty:
  assumes "\<forall>a<nextAddr h. staticChildren (cells h a) = [] \<and> paramChild (cells h a) = None"
  shows "treeInv h" and "\<And>a k. a < nextAddr h \<Longrightarrow> edge h a k = None"
proof -
  show "treeInv h" using assms by (simp add: treeInv_def childrenAllocated_def keysOk_def aliasesOk_def)
  show "\<And>a k. a < nextAddr h \<Longrightarrow> edge h a k = None"
    using assms by (simp add: edge_def split: option.split)
qed

text \<open>
  C1, amended. The store has no edges, the two nodes and the root are allocated and
  different from each other, neither node has an alias that starts with the wildcard marker,
  and both registrations succeed, first the path in the name of \<open>c1\<close>, then the path in the
  name of \<open>c2\<close>. If the segments of the second path are not a prefix of the segments of the
  first, where every wildcard segment counts as the same segment, then resolving the
  segments of the first path from the root returns \<open>c1\<close> and no leftover tokens, and
  resolving the segments of the second path returns \<open>c2\<close> and no leftover tokens.
\<close>

theorem distinct_paths_resolve:
  assumes "root < nextAddr h0" and "c1 < nextAddr h0" and "c2 < nextAddr h0"
    and "c1 \<noteq> root" and "c2 \<noteq> root" and "c1 \<noteq> c2"
    and "\<forall>a<nextAddr h0. staticChildren (cells h0 a) = [] \<and> paramChild (cells h0 a) = None"
    and "noWildAlias (cells h0 c1)" and "noWildAlias (cells h0 c2)"
    and "AddCmd h0 root c1 = Inr h1" and "AddCmd h1 root c2 = Inr h2"
    and "\<not> prefix (map segKey (pathNames (Name (cells h0 c2))))
                  (map segKey (pathNames (Name (cells h0 c1))))"
  shows "fst (FindCmd h2 root (pathNames (Name (cells h0 c1))) ctx) = Some c1 \<and>
         fst (snd (FindCmd h2 root (pathNames (Name (cells h0 c1))) ctx)) = [] \<and>
         fst (FindCmd h2 root (pathNames (Name (cells h0 c2))) ctx) = Some c2 \<and>
         fst (snd (FindCmd h2 root (pathNames (Name (cells h0 c2))) ctx)) = []"
proof -
  let ?n1 = "pathNames (Name (cells h0 c1))" and ?n2 = "pathNames (Name (cells h0 c2))"
  have i0: "treeInv h0" and e0: "\<And>a k. a < nextAddr h0 \<Longrightarrow> edge h0 a k = None"
    using treeInv_empty [OF assms(7)] by auto
  have ch1: "onlyPath h1 root (map segKey ?n1) c1"
    using AddCmd_first [OF assms(10,1,2,4)] e0 assms(1,2) by simp
  from AddCmd_treeInv [OF assms(10) i0 assms(1,2,8)]
  have i1: "treeInv h1" and le1: "nextAddr h0 \<le> nextAddr h1"
    and nm1: "Name (cells h1 c2) = Name (cells h0 c2)"
    and al1: "Aliases (cells h1 c2) = Aliases (cells h0 c2)"
    using assms(3,6) by auto
  have np: "\<not> prefix (map segKey (pathNames (Name (cells h1 c2)))) (map segKey ?n1)"
    using assms(12) nm1 by simp
  from AddCmd_second [OF assms(11) ch1 np]
  have w2: "walk h2 root (map segKey ?n2) = Some c2"
    and mono: "\<forall>x<nextAddr h1. \<forall>k b. edge h1 x k = Some b \<longrightarrow> edge h2 x k = Some b"
    using nm1 by auto
  have w1: "walk h2 root (map segKey ?n1) = Some c1"
    using onlyPath_walk_mono [OF mono ch1] .
  have "noWildAlias (cells h1 c2)" using assms(9) al1 by (simp add: noWildAlias_def)
  from AddCmd_treeInv [OF assms(11) i1 _ _ this]
  have i2: "treeInv h2" and le2: "nextAddr h1 \<le> nextAddr h2"
    using assms(1,3) le1 by auto
  have r2: "root < nextAddr h2" using assms(1) le1 le2 by simp
  show ?thesis
    using FindCmd_walk [OF i2 r2 w1 pathNames_ne, of ctx] FindCmd_walk [OF i2 r2 w2 pathNames_ne, of ctx]
    by simp
qed

lemma succeededD: "succeeded r \<Longrightarrow> \<exists>h. r = Inr h"
  by (cases r) (simp_all add: succeeded_def)

lemma ex_two_cells:
  "cells ex_two 0 = zeroCmd" "cells ex_two (Suc 0) = (named ''svc/start'')\<lparr>Aliases := [''up'']\<rparr>"
  "cells ex_two 2 = named ''svc/:id/logs''" "cells ex_two (Suc (Suc 0)) = named ''svc/:id/logs''"
  "nextAddr ex_two = 3"
  by (simp_all add: ex_two_def heapOf_def)

theorem distinct_paths_resolve_witness:
  "succeeded (registerBoth ex_two 0 1 2) \<and>
   Name (cells ex_two 1) = ''svc/start'' \<and> Name (cells ex_two 2) = ''svc/:id/logs'' \<and>
   \<not> prefix (map segKey (pathNames ''svc/:id/logs'')) (map segKey (pathNames ''svc/start'')) \<and>
   resolveOn (registerBoth ex_two 0 1 2) 0 (pathNames ''svc/start'') = Some (Some 1, []) \<and>
   resolveOn (registerBoth ex_two 0 1 2) 0 (pathNames ''svc/:id/logs'') = Some (Some 2, [])"
proof -
  have s1: "succeeded (AddCmd ex_two 0 1)" by code_simp
  have s2: "succeeded (registerBoth ex_two 0 1 2)" by code_simp
  obtain h1 where a1: "AddCmd ex_two 0 1 = Inr h1" using succeededD [OF s1] by blast
  obtain h2 where a2: "AddCmd h1 0 2 = Inr h2"
    using succeededD [OF s2] a1 by (auto simp: registerBoth_def)
  have rb: "registerBoth ex_two 0 1 2 = Inr h2" using a1 a2 by (simp add: registerBoth_def)
  have n1: "Name (cells ex_two 1) = ''svc/start''" and n2: "Name (cells ex_two 2) = ''svc/:id/logs''"
    by (simp_all add: ex_two_cells named_def zeroCmd_def)
  have np: "\<not> prefix (map segKey (pathNames ''svc/:id/logs'')) (map segKey (pathNames ''svc/start''))"
    by code_simp
  have emp: "\<forall>a<nextAddr ex_two. staticChildren (cells ex_two a) = [] \<and> paramChild (cells ex_two a) = None"
    by (auto simp add: ex_two_cells named_def zeroCmd_def less_Suc_eq numeral_3_eq_3)
  have w1: "noWildAlias (cells ex_two 1)" and w2: "noWildAlias (cells ex_two 2)"
    by (simp_all add: noWildAlias_def ex_two_cells named_def zeroCmd_def paramLabel_def)
  have "fst (FindCmd h2 0 (pathNames ''svc/start'') None) = Some 1 \<and>
         fst (snd (FindCmd h2 0 (pathNames ''svc/start'') None)) = [] \<and>
         fst (FindCmd h2 0 (pathNames ''svc/:id/logs'') None) = Some 2 \<and>
         fst (snd (FindCmd h2 0 (pathNames ''svc/:id/logs'') None)) = []"
    using distinct_paths_resolve [of 0 ex_two 1 2 h1 h2 None, OF _ _ _ _ _ _ emp w1 w2 a1 a2] np n1 n2
    by (simp add: ex_two_cells)
  then show ?thesis
    using s2 n1 n2 np rb by (auto simp: resolveOn_def split: prod.splits)
qed

text \<open>
  C1 as stated fails in two ways. After \<open>a/b\<close> and then \<open>a\<close>, the token \<open>a\<close> resolves to
  the placeholder that the first registration made for its segment \<open>a\<close> (the node at
  address 3), since the first node under a name wins; the node registered at \<open>a\<close> is at
  address 2. After \<open>:a\<close> and then \<open>:b\<close>, the token \<open>:b\<close> resolves to the node of \<open>:a\<close>,
  the only param child.
\<close>

theorem later_path_is_prefix_or_second_wildcard:
  "resolveOn (registerBoth ex_prefix 0 1 2) 0 (pathNames ''a/b'') = Some (Some 1, []) \<and>
   resolveOn (registerBoth ex_prefix 0 1 2) 0 (pathNames ''a'') = Some (Some 3, []) \<and>
   resolveOn (registerBoth ex_wild2 0 1 2) 0 (pathNames '':a'') = Some (Some 1, []) \<and>
   resolveOn (registerBoth ex_wild2 0 1 2) 0 (pathNames '':b'') = Some (Some 1, [])"
  by code_simp

section \<open>Help\<close>

lemma Children_sorted: "sorted (map (\<lambda>a. Name (cells h a)) (Children h c))"
  by (simp add: Children_def Let_def split: option.split)

lemma Children_set:
  "set (Children h c) = snd ` set (staticChildren (cells h c)) \<union> set_option (paramChild (cells h c))"
  by (auto simp: Children_def Let_def split: option.split)

lemma Children_length:
  "length (Children h c) = length (staticChildren (cells h c))
      + (case paramChild (cells h c) of None \<Rightarrow> 0 | Some x \<Rightarrow> 1)"
  by (simp add: Children_def Let_def split: option.split)

text \<open>
  C6, amended. For a node with subcommands, \<open>HelpText\<close> is the help paragraph of the node
  (\<open>LongHelp\<close> if not empty, else \<open>Help\<close> if not empty, else the line \<open><name> has no help\<close> if
  the name is not empty, else nothing), then the header \<open>Commands:\<close>, then what the
  tabwriter makes of one line for each child, the children sorted by name and being the
  static children and the param child, each line pairing the name of the child with the
  field \<open>Help\<close> of the child, whatever its \<open>LongHelp\<close>.
\<close>

theorem HelpText_lists_children:
  assumes "hasSubcommand h c"
  shows "HelpText tw h c =
           (if LongHelp (cells h c) \<noteq> [] then [CHR 0x0A] @ LongHelp (cells h c) @ [CHR 0x0A]
            else if Help (cells h c) \<noteq> [] then [CHR 0x0A] @ Help (cells h c) @ [CHR 0x0A]
            else if Name (cells h c) \<noteq> [] then [CHR 0x0A] @ Name (cells h c) @ '' has no help'' @ [CHR 0x0A]
            else [])
           @ [CHR 0x0A] @ ''Commands:'' @ [CHR 0x0A]
           @ tw (concat (map (\<lambda>a. [CHR 0x09] @ Name (cells h a) @ [CHR 0x09, CHR 0x09, CHR 0x09]
                                     @ Help (cells h a) @ [CHR 0x0A]) (Children h c)))
           @ [CHR 0x0A]
         \<and> sorted (map (\<lambda>a. Name (cells h a)) (Children h c))
         \<and> set (Children h c) = snd ` set (staticChildren (cells h c)) \<union> set_option (paramChild (cells h c))
         \<and> length (Children h c) = length (staticChildren (cells h c))
              + (case paramChild (cells h c) of None \<Rightarrow> 0 | Some x \<Rightarrow> 1)"
proof -
  have "HelpText tw h c =
           (if LongHelp (cells h c) \<noteq> [] then [CHR 0x0A] @ LongHelp (cells h c) @ [CHR 0x0A]
            else if Help (cells h c) \<noteq> [] then [CHR 0x0A] @ Help (cells h c) @ [CHR 0x0A]
            else if Name (cells h c) \<noteq> [] then [CHR 0x0A] @ Name (cells h c) @ '' has no help'' @ [CHR 0x0A]
            else [])
           @ [CHR 0x0A] @ ''Commands:'' @ [CHR 0x0A]
           @ tw (concat (map (\<lambda>a. [CHR 0x09] @ Name (cells h a) @ [CHR 0x09, CHR 0x09, CHR 0x09]
                                     @ Help (cells h a) @ [CHR 0x0A]) (Children h c)))
           @ [CHR 0x0A]"
    using assms by (simp add: HelpText_def HelpText_p_def Sprintln_def helpRow_def Let_def)
  then show ?thesis
    using Children_sorted [of h c] Children_set [of h c] Children_length [of h c] by simp
qed
lemma ex_help_hasSubcommand: "hasSubcommand ex_help 0"
    by (simp add: hasSubcommand_def ex_help_def heapOf_def zeroCmd_def)
lemma ex_help_cells: "cells ex_help (Suc 0) = (named ''deploy'')\<lparr>Help := ''short'', LongHelp := ''long text''\<rparr>" 
  "cells ex_help 2 = (named ''run'')\<lparr>Help := ''runs''\<rparr>"
  "cells ex_help 0 = zeroCmd\<lparr>staticChildren := [(''run'', 2), (''deploy'', 1)]\<rparr>"
  by (simp_all add: ex_help_def heapOf_def)
lemma ex_help_Children: "Children ex_help 0 = [1, 2]"
    by (simp add: Children_def ex_help_cells named_def zeroCmd_def)

theorem HelpText_lists_children_witness:
  "hasSubcommand ex_help 0 \<and>
   HelpText plainWriter ex_help 0 =
     [CHR 0x0A] @ ''Commands:'' @ [CHR 0x0A]
     @ [CHR 0x09] @ ''deploy'' @ [CHR 0x09, CHR 0x09, CHR 0x09] @ ''short'' @ [CHR 0x0A]
     @ [CHR 0x09] @ ''run'' @ [CHR 0x09, CHR 0x09, CHR 0x09] @ ''runs'' @ [CHR 0x0A]
     @ [CHR 0x0A]"
proof -
  show ?thesis
    using ex_help_hasSubcommand HelpText_lists_children [OF ex_help_hasSubcommand, of plainWriter, THEN conjunct1]
    by (simp add: ex_help_Children ex_help_cells plainWriter_def named_def zeroCmd_def)
qed

text \<open>
  C6 as stated fails for a child with a \<open>LongHelp\<close>: the line of \<open>deploy\<close> carries its
  \<open>Help\<close>, where the resolved help text of the spec is its \<open>LongHelp\<close>.
\<close>

theorem HelpText_child_with_LongHelp:
  "hasSubcommand ex_help 0 \<and>
   HelpText plainWriter ex_help 0 =
     [CHR 0x0A] @ ''Commands:'' @ [CHR 0x0A]
     @ [CHR 0x09] @ ''deploy'' @ [CHR 0x09, CHR 0x09, CHR 0x09] @ ''short'' @ [CHR 0x0A]
     @ [CHR 0x09] @ ''run'' @ [CHR 0x09, CHR 0x09, CHR 0x09] @ ''runs'' @ [CHR 0x0A]
     @ [CHR 0x0A] \<and>
   spec_FullHelp plainWriter ex_help 0 =
     [CHR 0x0A] @ ''Commands:'' @ [CHR 0x0A]
     @ [CHR 0x09] @ ''deploy'' @ [CHR 0x09, CHR 0x09, CHR 0x09] @ ''long text'' @ [CHR 0x0A]
     @ [CHR 0x09] @ ''run'' @ [CHR 0x09, CHR 0x09, CHR 0x09] @ ''runs'' @ [CHR 0x0A]
     @ [CHR 0x0A]"
    using ex_help_hasSubcommand
    by (simp add: ex_help_Children ex_help_cells HelpText_def HelpText_p_def spec_FullHelp_def Sprintln_def helpRow_def spec_helpRow_def
         resolvedHelp_def Let_def plainWriter_def named_def zeroCmd_def)


section \<open>Completion\<close>

text \<open>
  C7, amended. For a cursor position that is not beyond the end of the line, and a
  completer that is not disabled: when there is at least one word, the cursor is not at
  position 0 and the character before the cursor is not the space character, the last word is
  the prefix and the words before it go to \<open>getWords\<close>; otherwise the prefix is empty and all
  words go to \<open>getWords\<close>.
\<close>

theorem Do_prefix_split:
  assumes "disabled ic \<noteq> Some True" and "pos \<le> int (length line)"
    and "words = (case shlexSplit line of Some w \<Rightarrow> w | None \<Rightarrow> Fields line)"
  shows "Do shlexSplit Fields h ic line pos =
           Inr (if words \<noteq> [] \<and> 0 < pos \<and> line ! nat (pos - 1) \<noteq> CHR '' ''
                then suggest h (cmd ic) (last words) (butlast words)
                else suggest h (cmd ic) [] words)"
proof -
  have "splitPrefix words line pos =
          Inr (if words \<noteq> [] \<and> 0 < pos \<and> line ! nat (pos - 1) \<noteq> CHR '' ''
               then (last words, butlast words) else ([], words))"
    using assms(2) by (auto simp: splitPrefix_def)
  then show ?thesis
    using assms(1,3) by (simp add: Do_def)
qed

theorem Do_prefix_split_witness:
  "disabled ic_flat \<noteq> Some True \<and> (4::int) \<le> int (length ''st r'') \<and>
   Do failingShlex asciiFields ex_flat ic_flat ''st r'' 4 = Inr (suggest ex_flat 0 ''r'' [''st''])"
proof -
  have a: "disabled ic_flat \<noteq> Some True" by (simp add: ic_flat_def)
  have b: "(4::int) \<le> int (length ''st r'')" by simp
  have c: "[''st'', ''r''] = (case failingShlex ''st r'' of Some w \<Rightarrow> w | None \<Rightarrow> asciiFields ''st r'')"
    by (simp add: failingShlex_def asciiFields_def isWhitespace_def)
  show ?thesis
    using a b Do_prefix_split [where shlexSplit = failingShlex and Fields = asciiFields and h = ex_flat, OF a b c]
    by (simp add: ic_flat_def)
qed

text \<open>
  C7 as stated fails when a tab stands before the cursor: the tab is white space, and the
  tokenizers split at it, but \<open>Do\<close> compares with the space character only, so the last
  word becomes the prefix.
\<close>

theorem tab_before_cursor:
  "isWhitespace ((''foo'' @ [CHR 0x09]) ! nat (4 - 1)) \<and>
   splitPrefix [''foo''] (''foo'' @ [CHR 0x09]) 4 = Inr (''foo'', []) \<and>
   spec_splitPrefix [''foo''] (''foo'' @ [CHR 0x09]) 4 = ([], [''foo''])"
  by (simp add: splitPrefix_def spec_splitPrefix_def isWhitespace_def)


text \<open>
  C5. \<open>FindCmd\<close> has resolved the words to a node (the root when nothing matched) and left
  arguments over, the last of which is \<open>--out\<close>, and the first pair argument of the node
  with that name is \<open>spec\<close>. Then the candidates are the static children that match the
  prefix and one parameter suggestion, the value of \<open>--out\<close>: it is the only suggestion
  with \<open>Param\<close> set (the node cannot have a param child, which would have taken the first
  leftover argument), and no argument of the node is offered by name.
\<close>

theorem pair_argument_value_slot:
  assumes "FindCmd h root w (Some \<lparr>Params = []\<rparr>) = (r, args, ctx)"
    and "node = (case r of None \<Rightarrow> root | Some c \<Rightarrow> c)"
    and "args \<noteq> []" and "last args = ''--out''"
    and "find (\<lambda>arg. Arg_Name arg = ''--out'' \<and> Arg_Pair arg) (Args (cells h node)) = Some spec"
    and "slot = \<lparr>Word = ''--out'', Param = True, Optional = Arg_Optional spec, Sug_Help = Arg_Help spec\<rparr>"
  shows "getWords h root pre w = sortSuggestions (staticWords h node pre @ [slot]) \<and>
         filter Param (getWords h root pre w) = [slot] \<and>
         set (getWords h root pre w) = set (staticWords h node pre) \<union> {slot}"
proof -
  have "findChildCmd h node (hd args) = None"
    using findLoop_rest [of h root None "\<lparr>Params = []\<rparr>" w r args ctx] assms(1,2,3)
    by (simp add: FindCmd_def)
  then have pc: "paramWords h node = []"
    by (simp add: paramWords_def findChildCmd_None_param)
  have sp: "Arg_Name spec = ''--out''"
    using assms(5) by (auto simp: find_Some_iff)
  have "wordsOf h node pre args = sortSuggestions (staticWords h node pre @ [slot])"
    using assms(3,4,5,6) pc sp by (simp add: wordsOf_def Let_def)
  moreover have "getWords h root pre w = wordsOf h node pre args"
    using assms(1,2) by (cases r) (simp_all add: getWords_def)
  ultimately have g: "getWords h root pre w = sortSuggestions (staticWords h node pre @ [slot])"
    by simp
  have "filter Param (sortSuggestions (staticWords h node pre @ [slot])) = [slot]"
    using assms(6) by (simp add: sortSuggestions_def filter_sort filter_Param_staticWords)
  then show ?thesis using g by (simp add: sortSuggestions_def)
qed

lemma ex_args_cells:
  "cells ex_args 0 = zeroCmd\<lparr>staticChildren := [(''build'', 1)]\<rparr>"
  "cells ex_args (Suc 0) = (named ''build'')\<lparr>Args := [\<lparr>Arg_Name = ''--verbose'', Arg_Pair = False, Arg_Optional = True, Arg_Help = ''more output''\<rparr>,
                                               \<lparr>Arg_Name = ''--out'', Arg_Pair = True, Arg_Optional = False, Arg_Help = ''output file''\<rparr>],
                                        staticChildren := [(''all'', 2)]\<rparr>"
  "cells ex_args 2 = named ''all''"
  by (simp_all add: ex_args_def heapOf_def)


theorem pair_argument_value_slot_witness:
  "FindCmd ex_args 0 [''build'', ''--out''] (Some \<lparr>Params = []\<rparr>) = (Some 1, [''--out''], \<lparr>Params = []\<rparr>) \<and>
   find (\<lambda>arg. Arg_Name arg = ''--out'' \<and> Arg_Pair arg) (Args (cells ex_args 1))
     = Some \<lparr>Arg_Name = ''--out'', Arg_Pair = True, Arg_Optional = False, Arg_Help = ''output file''\<rparr> \<and>
   getWords ex_args 0 [] [''build'', ''--out'']
     = [\<lparr>Word = ''--out'', Param = True, Optional = False, Sug_Help = ''output file''\<rparr>,
        \<lparr>Word = ''all'', Param = False, Optional = False, Sug_Help = []\<rparr>] \<and>
   filter Param (getWords ex_args 0 [] [''build'', ''--out''])
     = [\<lparr>Word = ''--out'', Param = True, Optional = False, Sug_Help = ''output file''\<rparr>]"
proof -
  have a: "FindCmd ex_args 0 [''build'', ''--out''] (Some \<lparr>Params = []\<rparr>) = (Some 1, [''--out''], \<lparr>Params = []\<rparr>)"
    by (simp add: FindCmd_def findChildCmd_def ex_args_cells named_def zeroCmd_def)
  have b: "(1::nat) = (case Some 1 of None \<Rightarrow> 0 | Some c \<Rightarrow> c)" by simp
  have c: "[''--out''] \<noteq> []" and d: "last [''--out''] = ''--out''" by simp_all
  have e: "find (\<lambda>arg. Arg_Name arg = ''--out'' \<and> Arg_Pair arg) (Args (cells ex_args 1))
     = Some \<lparr>Arg_Name = ''--out'', Arg_Pair = True, Arg_Optional = False, Arg_Help = ''output file''\<rparr>"
    by (simp add: ex_args_cells named_def zeroCmd_def)
  have s: "staticWords ex_args (Suc 0) [] = [\<lparr>Word = ''all'', Param = False, Optional = False, Sug_Help = []\<rparr>]"
    by (simp add: staticWords_def ex_args_cells named_def zeroCmd_def HasPrefix_def helpText_def)
  show ?thesis
    using a e pair_argument_value_slot [OF a b c d e refl, of "[]"]
    by (simp add: s sortSuggestions_def)
qed


text \<open>The list that \<open>sort_key\<close> returns when the keys are known and distinct.\<close>

lemma distinct_map_sort_key: "distinct (map f (sort_key f xs)) = distinct (map f xs)"
  by (induction xs) (simp_all add: distinct_insort_key)

lemma map_sort_key_unique:
  assumes "distinct (map f xs)" and "set (map f xs) = set ys" and "sorted ys" and "distinct ys"
  shows "map f (sort_key f xs) = ys"
proof (rule sorted_distinct_set_unique)
  show "sorted (map f (sort_key f xs))" by simp
  show "distinct (map f (sort_key f xs))" using assms(1) by (simp add: distinct_map_sort_key)
  show "sorted ys" "distinct ys" by fact+
  show "set (map f (sort_key f xs)) = set ys" using assms(2) by simp
qed

lemma sorted_st: "sorted [''start'', ''status'', ''stop'']" "distinct [''start'', ''status'', ''stop'']"
  by simp_all

lemma map3: "map f xs = [a, b, c] \<Longrightarrow> \<exists>x y z. xs = [x, y, z] \<and> f x = a \<and> f y = b \<and> f z = c"
  by (auto simp: map_eq_Cons_conv)

lemma splitPrefix_at:
  "words \<noteq> [] \<Longrightarrow> nat (pos - 1) = i \<Longrightarrow> 0 < pos \<Longrightarrow> i < length line \<Longrightarrow> line ! i \<noteq> CHR '' '' \<Longrightarrow>
     splitPrefix words line pos = Inr (last words, butlast words)"
  by (simp add: splitPrefix_def)

text \<open>
  C4. The line ends with the typed prefix \<open>st\<close>, the cursor is at the end of the line, and
  the words before the prefix resolve to a node (the root when nothing matches) whose static
  children are exactly \<open>start\<close>, \<open>stop\<close> and \<open>status\<close>, in any order, and that has neither
  arguments nor a param child. Then \<open>Do\<close> returns the suggestions \<open>art\<close>, \<open>atus\<close>, \<open>op\<close> in
  this order, which is the order of the words \<open>start\<close>, \<open>status\<close>, \<open>stop\<close>, the length 3
  and the replace length 2.
\<close>

theorem complete_start_stop_status:
  assumes "disabled ic \<noteq> Some True"
    and "(case shlexSplit line of Some w \<Rightarrow> w | None \<Rightarrow> Fields line) = ws @ [''st'']"
    and "line = l @ ''st''" and "pos = int (length line)"
    and "FindCmd h (cmd ic) ws (Some \<lparr>Params = []\<rparr>) = (r, args, ctx)"
    and "node = (case r of None \<Rightarrow> cmd ic | Some c \<Rightarrow> c)"
    and "distinct (map fst (staticChildren (cells h node)))"
    and "set (map fst (staticChildren (cells h node))) = {''start'', ''stop'', ''status''}"
    and "Args (cells h node) = []" and "paramChild (cells h node) = None"
  shows "\<exists>out. Do shlexSplit Fields h ic line pos = Inr (([''art'', ''atus'', ''op''], 3, 2), out)"
proof -
  let ?sc = "staticChildren (cells h node)"
  let ?mk = "\<lambda>kv. \<lparr>Word = fst kv, Param = False, Optional = False, Sug_Help = helpText (cells h (snd kv))\<rparr>"
  have pre: "\<forall>kv\<in>set ?sc. HasPrefix (fst kv) ''st''"
  proof
    fix kv assume "kv \<in> set ?sc"
    then have "fst kv \<in> {''start'', ''stop'', ''status''}" using assms(8) by force
    then show "HasPrefix (fst kv) ''st''" by (auto simp: HasPrefix_def)
  qed
  then have sw: "staticWords h node ''st'' = map ?mk ?sc"
    by (simp add: staticWords_def)
  have wo: "wordsOf h node ''st'' args = sort_key Word (map ?mk ?sc)"
    using assms(9,10) sw by (simp add: wordsOf_def paramWords_def sortSuggestions_def)
  have gw: "getWords h (cmd ic) ''st'' ws = sort_key Word (map ?mk ?sc)"
    using assms(5,6) wo by (cases r) (simp_all add: getWords_def)
  have mw: "map Word (map ?mk ?sc) = map fst ?sc" by (simp add: o_def)
  have "map Word (sort_key Word (map ?mk ?sc)) = [''start'', ''status'', ''stop'']"
  proof (rule map_sort_key_unique)
    show "distinct (map Word (map ?mk ?sc))" using assms(7) by (simp only: mw)
    show "set (map Word (map ?mk ?sc)) = set [''start'', ''status'', ''stop'']"
      using assms(8) by (simp only: mw) auto
  qed (rule sorted_st)+
  then obtain x y z where xyz: "sort_key Word (map ?mk ?sc) = [x, y, z]"
    "Word x = ''start''" "Word y = ''status''" "Word z = ''stop''"
    using map3 by blast
  have "\<forall>s\<in>set (sort_key Word (map ?mk ?sc)). \<not> Param s" by auto
  then have np: "\<not> Param x" "\<not> Param y" "\<not> Param z" unfolding xyz(1) by simp_all
  have sg: "suggest h (cmd ic) ''st'' ws
              = (([''art'', ''atus'', ''op''], 3, 2), [[], tipOf x, tipOf y, tipOf z])"
    using gw xyz np by (simp add: suggest_def Let_def HasPrefix_def TrimPrefix_def)
  have ix: "nat (pos - 1) = Suc (length l)"
    using assms(3,4) by simp
  have "line ! Suc (length l) = CHR ''t''"
    using assms(3) by (simp add: nth_append)
  moreover have "0 < pos" "Suc (length l) < length line"
    using assms(3,4) by simp_all
  ultimately have "splitPrefix (ws @ [''st'']) line pos = Inr (''st'', ws)"
    using splitPrefix_at [of "ws @ [''st'']" pos "Suc (length l)" line] ix by simp
  then have "Do shlexSplit Fields h ic line pos = Inr (suggest h (cmd ic) ''st'' ws)"
    using assms(1,2) by (simp add: Do_def)
  then show ?thesis using sg by simp
qed


lemma ex_service_cells:
  "cells ex_service 0 = zeroCmd\<lparr>staticChildren := [(''svc'', 1)]\<rparr>"
  "cells ex_service (Suc 0) = (named ''svc'')\<lparr>staticChildren := [(''stop'', 3), (''status'', 4), (''start'', 2)]\<rparr>"
  "cells ex_service 2 = (named ''start'')\<lparr>Help := ''start the service''\<rparr>"
  "cells ex_service 3 = (named ''stop'')\<lparr>Help := ''stop the service''\<rparr>"
  "cells ex_service 4 = (named ''status'')\<lparr>Help := ''show the state''\<rparr>"
  by (simp_all add: ex_service_def heapOf_def)

lemma ic_flat_simps: "cmd ic_flat = 0" "disabled ic_flat = None"
  by (simp_all add: ic_flat_def)

theorem complete_start_stop_status_witness:
  "disabled ic_flat \<noteq> Some True \<and>
   (case failingShlex ''svc st'' of Some w \<Rightarrow> w | None \<Rightarrow> asciiFields ''svc st'') = [''svc''] @ [''st''] \<and>
   FindCmd ex_service (cmd ic_flat) [''svc''] (Some \<lparr>Params = []\<rparr>) = (Some 1, [], \<lparr>Params = []\<rparr>) \<and>
   staticChildren (cells ex_service 1) = [(''stop'', 3), (''status'', 4), (''start'', 2)] \<and>
   Args (cells ex_service 1) = [] \<and> paramChild (cells ex_service 1) = None \<and>
   (\<exists>out. Do failingShlex asciiFields ex_service ic_flat ''svc st'' 6
            = Inr (([''art'', ''atus'', ''op''], 3, 2), out))"
proof -
  have a: "disabled ic_flat \<noteq> Some True" by (simp add: ic_flat_simps)
  have b: "(case failingShlex ''svc st'' of Some w \<Rightarrow> w | None \<Rightarrow> asciiFields ''svc st'') = [''svc''] @ [''st'']"
    by (simp add: failingShlex_def asciiFields_def isWhitespace_def)
  have c: "''svc st'' = ''svc '' @ ''st''" and d: "(6::int) = int (length ''svc st'')" by simp_all
  have e: "FindCmd ex_service (cmd ic_flat) [''svc''] (Some \<lparr>Params = []\<rparr>) = (Some 1, [], \<lparr>Params = []\<rparr>)"
    by (simp add: FindCmd_def findChildCmd_def ic_flat_simps ex_service_cells named_def zeroCmd_def)
  have f: "(1::nat) = (case Some 1 of None \<Rightarrow> cmd ic_flat | Some c \<Rightarrow> c)" by simp
  have s: "staticChildren (cells ex_service 1) = [(''stop'', 3), (''status'', 4), (''start'', 2)]"
    and i: "Args (cells ex_service 1) = []" and j: "paramChild (cells ex_service 1) = None"
    by (simp_all add: ex_service_cells named_def zeroCmd_def)
  have g: "distinct (map fst (staticChildren (cells ex_service 1)))"
    unfolding s by simp
  have k: "set (map fst (staticChildren (cells ex_service 1))) = {''start'', ''stop'', ''status''}"
    unfolding s by auto
  show ?thesis
    using a b e s i j complete_start_stop_status [where shlexSplit = failingShlex and Fields = asciiFields,
        OF a b c d e f g k i j] by simp
qed


end
